theory Spec2Isabelle
  imports Complex_Main "HOL-Library.AList"
begin

section \<open>Data model\<close>

text \<open>
  The engines read only the identifier of a node and the endpoints and weight of an
  edge; the position, label and display status of the TypeScript interfaces are never
  read by the three algorithms and are left out of the records.

  A JavaScript number is an IEEE 754 double. The embedding covers the doubles that are
  integers (weights are integers): \<open>Fin n\<close> is the double \<open>n\<close>, and \<open>Infinity\<close> and
  \<open>NegInfinity\<close> are the two infinite doubles. An addition is the exact sum rounded to 53
  significant bits, ties to even, and a rounded sum of magnitude \<open>2^1024\<close> or more is
  infinite (\<open>round_double\<close>). A lookup of a key that an object does not hold gives
  \<open>undefined\<close> in JavaScript, which arithmetic turns into \<open>NaN\<close>; both are the value \<open>None\<close>
  of \<open>jsnum option\<close>, and every comparison with it is false.

  A plain object used as a dictionary is modelled as a map from strings. The two agree
  on every key that is not the name of a property of \<open>Object.prototype\<close>
  (\<open>object_prototype_keys\<close> below): an assignment to the key \<open>__proto__\<close> stores no entry,
  and a lookup of an inherited name that was never assigned does not give \<open>undefined\<close>.
  The statements that depend on it name the keys they cover (\<open>plain_keys\<close>).
\<close>

record Node =
  node_id :: string

record Edge =
  edge_id :: string
  source :: string
  target :: string
  weight :: int

datatype jsnum = Fin int | Infinity | NegInfinity

record RoutingTableEntry =
  destination :: string
  nextHop :: string
  cost :: jsnum
  hops :: int
  route :: "string list"

type_synonym distmap = "string \<rightharpoonup> jsnum"
type_synonym prevmap = "string \<rightharpoonup> string option"

record AlgorithmResult =
  distances :: distmap
  previous :: prevmap
  path :: "string list"
  routingTable :: "RoutingTableEntry list"
  iterations :: nat

datatype error = TypeError | NegativeCycleError

text \<open>The number of bits of a positive integer.\<close>

function bit_length :: "int \<Rightarrow> nat" where
  "bit_length n = (if n \<le> 0 then 0 else Suc (bit_length (n div 2)))"
  by pat_completeness auto
termination
  by (relation "measure nat") auto

declare bit_length.simps [simp del]

text \<open>
  Rounding a non-negative integer to a multiple of \<open>2^k\<close>, to the nearest one and, half
  way between two, to the one with the even quotient.
\<close>

definition round_at :: "nat \<Rightarrow> int \<Rightarrow> int" where
  "round_at k m =
     (let q = m div 2 ^ k; r = m mod 2 ^ k
      in if 2 * r < 2 ^ k \<or> (2 * r = 2 ^ k \<and> even q) then q * 2 ^ k else (q + 1) * 2 ^ k)"

text \<open>
  Rounding a non-negative integer to 53 significant bits: an integer below
  \<open>2^53 = 9007199254740992\<close> is a double, a larger one of \<open>53 + k\<close> bits is rounded to a
  multiple of \<open>2^k\<close>.
\<close>

definition round_magnitude :: "int \<Rightarrow> int" where
  "round_magnitude m = (if m < 9007199254740992 then m else round_at (bit_length m - 53) m)"

text \<open>The double nearest to an integer; the largest finite double has 1024 bits.\<close>

definition round_double :: "int \<Rightarrow> jsnum" where
  "round_double n =
     (if \<bar>n\<bar> < 9007199254740992 then Fin n
      else let m = round_magnitude \<bar>n\<bar>
           in if bit_length m \<le> 1024 then Fin (if 0 \<le> n then m else - m)
              else if 0 < n then Infinity else NegInfinity)"

text \<open>\<^verbatim>\<open>x + edge.weight\<close> for a distance \<open>x\<close> and a finite weight.\<close>

fun js_add :: "jsnum option \<Rightarrow> int \<Rightarrow> jsnum option" where
  "js_add None w = None"
| "js_add (Some (Fin a)) w = Some (round_double (a + w))"
| "js_add (Some Infinity) w = Some Infinity"
| "js_add (Some NegInfinity) w = Some NegInfinity"

text \<open>\<^verbatim>\<open>x < y\<close>\<close>

fun js_lt :: "jsnum option \<Rightarrow> jsnum option \<Rightarrow> bool" where
  "js_lt (Some (Fin a)) (Some (Fin b)) = (a < b)"
| "js_lt (Some (Fin a)) (Some Infinity) = True"
| "js_lt (Some NegInfinity) (Some (Fin b)) = True"
| "js_lt (Some NegInfinity) (Some Infinity) = True"
| "js_lt _ _ = False"

section \<open>Initialisation, path reconstruction and routing table (shared by Dijkstra and Bellman-Ford)\<close>

definition init_distances :: "Node list \<Rightarrow> string \<Rightarrow> distmap" where
  "init_distances nodes src =
     foldl (\<lambda>d n. d(node_id n \<mapsto> (if node_id n = src then Fin 0 else Infinity))) Map.empty nodes"

definition init_previous :: "Node list \<Rightarrow> prevmap" where
  "init_previous nodes = foldl (\<lambda>p n. p(node_id n \<mapsto> None)) Map.empty nodes"

text \<open>
  \<^verbatim>\<open>while (current !== null) { path.unshift(current); current = previous[current]; }\<close>

  \<open>current\<close> has the declared type \<open>string | null\<close> (\<open>None\<close> is \<open>null\<close>). The loop has no
  bound: on a cyclic predecessor chain it never ends, so the walk is a partial function
  and \<open>None\<close> is "no result". Reading a key that \<open>previous\<close> does not hold leaves the
  declared type (\<open>current\<close> becomes \<open>undefined\<close>, which is not \<open>null\<close>, and the loop goes on
  from the key \<open>undefined\<close>); the walk then yields no list of strings, and the model
  gives \<open>None\<close> there as well.
\<close>

partial_function (option) walk :: "prevmap \<Rightarrow> string option \<Rightarrow> string list \<Rightarrow> string list option" where
  "walk prev current acc =
     (case current of
        None \<Rightarrow> Some acc
      | Some c \<Rightarrow> (case prev c of None \<Rightarrow> None | Some nxt \<Rightarrow> walk prev nxt (c # acc)))"

text \<open>
  The routing table: one row for every node of the list other than the source whose
  distance is not \<open>Infinity\<close>. Every node id is a key of \<open>distances\<close> (set at
  initialisation), so the \<open>None\<close> branch of the lookup is never taken.
\<close>

fun routing_rows :: "distmap \<Rightarrow> prevmap \<Rightarrow> string \<Rightarrow> Node list \<Rightarrow> RoutingTableEntry list option" where
  "routing_rows d p src [] = Some []"
| "routing_rows d p src (n # ns) =
     (case d (node_id n) of
        None \<Rightarrow> None
      | Some c \<Rightarrow>
          if node_id n \<noteq> src \<and> c \<noteq> Infinity then
            (case walk p (Some (node_id n)) [] of
               None \<Rightarrow> None
             | Some nodePath \<Rightarrow>
                 (case routing_rows d p src ns of
                    None \<Rightarrow> None
                  | Some rows \<Rightarrow>
                      Some (\<lparr>destination = node_id n,
                             nextHop = (if length nodePath > 1 then nodePath ! 1 else node_id n),
                             cost = c,
                             hops = int (length nodePath) - 1,
                             route = nodePath\<rparr> # rows)))
          else routing_rows d p src ns)"

definition assemble :: "Node list \<Rightarrow> string \<Rightarrow> string \<Rightarrow> distmap \<Rightarrow> prevmap \<Rightarrow> nat \<Rightarrow> AlgorithmResult option" where
  "assemble nodes src dest d p its =
     (case walk p (Some dest) [] of
        None \<Rightarrow> None
      | Some pth \<Rightarrow>
          (case routing_rows d p src nodes of
             None \<Rightarrow> None
           | Some rows \<Rightarrow>
               Some \<lparr>distances = d, previous = p,
                     path = (if src \<in> set pth then pth else []),
                     routingTable = rows, iterations = its\<rparr>))"

declare walk.simps [code]

section \<open>Bellman-Ford\<close>

text \<open>
  \<^verbatim>\<open>distances[from] !== Infinity && distances[from] + edge.weight < distances[to]\<close>
\<close>

definition relaxable :: "distmap \<Rightarrow> string \<Rightarrow> string \<Rightarrow> int \<Rightarrow> bool" where
  "relaxable d from to w \<longleftrightarrow> d from \<noteq> Some Infinity \<and> js_lt (js_add (d from) w) (d to)"

definition directions :: "Edge \<Rightarrow> (string \<times> string) list" where
  "directions e = [(source e, target e), (target e, source e)]"

definition relax_dir :: "int \<Rightarrow> distmap \<times> prevmap \<times> bool \<Rightarrow> string \<times> string \<Rightarrow> distmap \<times> prevmap \<times> bool" where
  "relax_dir w st ft =
     (case st of (d, p, hasUpdate) \<Rightarrow>
        (case ft of (from, to) \<Rightarrow>
           if relaxable d from to w
           then (d(to := js_add (d from) w), p(to \<mapsto> Some from), True)
           else (d, p, hasUpdate)))"

definition relax_edge :: "distmap \<times> prevmap \<times> bool \<Rightarrow> Edge \<Rightarrow> distmap \<times> prevmap \<times> bool" where
  "relax_edge st e = foldl (relax_dir (weight e)) st (directions e)"

definition relax_pass :: "Edge list \<Rightarrow> distmap \<times> prevmap \<Rightarrow> distmap \<times> prevmap \<times> bool" where
  "relax_pass edges dp = foldl relax_edge (fst dp, snd dp, False) edges"

text \<open>
  \<^verbatim>\<open>for (let i = 0; i < nodes.length - 1; i++) { iterations++; ...; if (!hasUpdate) break; }\<close>
  The first argument counts the passes that are left.
\<close>

fun bf_passes :: "nat \<Rightarrow> Edge list \<Rightarrow> distmap \<times> prevmap \<times> nat \<Rightarrow> distmap \<times> prevmap \<times> nat" where
  "bf_passes 0 edges st = st"
| "bf_passes (Suc k) edges (d, p, its) =
     (case relax_pass edges (d, p) of
        (d', p', hasUpdate) \<Rightarrow>
          if \<not> hasUpdate then (d', p', Suc its) else bf_passes k edges (d', p', Suc its))"

definition has_negative_cycle :: "distmap \<Rightarrow> Edge list \<Rightarrow> bool" where
  "has_negative_cycle d edges \<longleftrightarrow>
     list_ex (\<lambda>e. list_ex (\<lambda>ft. relaxable d (fst ft) (snd ft) (weight e)) (directions e)) edges"

definition bf_distances :: "Node list \<Rightarrow> Edge list \<Rightarrow> string \<Rightarrow> distmap \<times> prevmap \<times> nat" where
  "bf_distances nodes edges src =
     bf_passes (length nodes - 1) edges (init_distances nodes src, init_previous nodes, 0)"

definition bf_execute :: "Node list \<Rightarrow> Edge list \<Rightarrow> string \<Rightarrow> string \<Rightarrow> (error + AlgorithmResult) option" where
  "bf_execute nodes edges src dest =
     (case bf_distances nodes edges src of
        (d, p, its) \<Rightarrow>
          if has_negative_cycle d edges then Some (Inl NegativeCycleError)
          else map_option Inr (assemble nodes src dest d p its))"

section \<open>Dijkstra\<close>

text \<open>
  The adjacency structure is an object of objects. An inner object is an association
  list in insertion order (\<open>AList.update\<close> overwrites in place or appends).
  \<open>Object.keys\<close> lists the keys that are array indices (canonical decimal strings up to
  \<open>2^32 - 2\<close>) first, in ascending numeric order, then the other keys in insertion order.
\<close>

definition is_digit :: "char \<Rightarrow> bool" where
  "is_digit c \<longleftrightarrow> (48::nat) \<le> of_char c \<and> (of_char c :: nat) \<le> 57"

definition digits_value :: "string \<Rightarrow> int" where
  "digits_value s = foldl (\<lambda>acc c. 10 * acc + (of_char c - 48)) 0 s"

definition array_index :: "string \<Rightarrow> int option" where
  "array_index s =
     (if s \<noteq> [] \<and> list_all is_digit s \<and> (hd s \<noteq> CHR ''0'' \<or> length s = 1)
         \<and> digits_value s \<le> 4294967294
      then Some (digits_value s) else None)"

definition object_keys :: "(string \<times> int) list \<Rightarrow> string list" where
  "object_keys kvs =
     (let ks = map fst kvs
      in sort_key (\<lambda>k. case array_index k of Some i \<Rightarrow> i | None \<Rightarrow> 0)
           (filter (\<lambda>k. array_index k \<noteq> None) ks)
         @ filter (\<lambda>k. array_index k = None) ks)"

type_synonym graph = "string \<rightharpoonup> (string \<times> int) list"

definition init_graph :: "Node list \<Rightarrow> graph" where
  "init_graph nodes = foldl (\<lambda>g n. g(node_id n \<mapsto> [])) Map.empty nodes"

text \<open>
  \<^verbatim>\<open>graph[edge.source][edge.target] = edge.weight; graph[edge.target][edge.source] = edge.weight;\<close>
  An assignment into \<open>graph[x]\<close> for an \<open>x\<close> that is not a node id raises a TypeError.
\<close>

definition set_adj :: "graph \<Rightarrow> string \<Rightarrow> string \<Rightarrow> int \<Rightarrow> error + graph" where
  "set_adj g a b w =
     (case g a of None \<Rightarrow> Inl TypeError | Some adj \<Rightarrow> Inr (g(a \<mapsto> AList.update b w adj)))"

fun build_graph :: "graph \<Rightarrow> Edge list \<Rightarrow> error + graph" where
  "build_graph g [] = Inr g"
| "build_graph g (e # es) =
     (case set_adj g (source e) (target e) (weight e) of
        Inl err \<Rightarrow> Inl err
      | Inr g1 \<Rightarrow>
          (case set_adj g1 (target e) (source e) (weight e) of
             Inl err \<Rightarrow> Inl err
           | Inr g2 \<Rightarrow> build_graph g2 es))"

text \<open>\<open>new Set(ids)\<close>: the distinct ids in the order of their first occurrence.\<close>

definition new_Set :: "string list \<Rightarrow> string list" where
  "new_Set xs = foldl (\<lambda>acc x. if x \<in> set acc then acc else acc @ [x]) [] xs"

text \<open>
  \<^verbatim>\<open>Array.from(unvisited).reduce((min, node) => distances[node] < distances[min] ? node : min)\<close>
\<close>

definition min_node :: "distmap \<Rightarrow> string list \<Rightarrow> string" where
  "min_node d us = foldl (\<lambda>m node. if js_lt (d node) (d m) then node else m) (hd us) (tl us)"

definition relax_neighbor ::
  "(string \<times> int) list \<Rightarrow> string \<Rightarrow> string set \<Rightarrow> distmap \<times> prevmap \<Rightarrow> string \<Rightarrow> distmap \<times> prevmap" where
  "relax_neighbor adj currentNode visited dp neighbor =
     (case dp of (d, p) \<Rightarrow>
        if neighbor \<notin> visited then
          (case map_of adj neighbor of
             None \<Rightarrow> (d, p)
           | Some w \<Rightarrow>
               let newDistance = js_add (d currentNode) w
               in if js_lt newDistance (d neighbor)
                  then (d(neighbor := newDistance), p(neighbor \<mapsto> Some currentNode))
                  else (d, p))
        else (d, p))"

definition update_neighbors :: "graph \<Rightarrow> string \<Rightarrow> string set \<Rightarrow> distmap \<times> prevmap \<Rightarrow> distmap \<times> prevmap" where
  "update_neighbors g currentNode visited dp =
     (case g currentNode of
        None \<Rightarrow> dp
      | Some adj \<Rightarrow> foldl (relax_neighbor adj currentNode visited) dp (object_keys adj))"

function dijkstra_loop ::
  "graph \<Rightarrow> string \<Rightarrow> distmap \<times> prevmap \<times> string set \<times> string list \<times> nat \<Rightarrow> distmap \<times> prevmap \<times> nat" where
  "dijkstra_loop g dest (d, p, visited, unvisited, its) =
     (if unvisited = [] then (d, p, its)
      else
        let currentNode = min_node d unvisited in
        if d currentNode = Some Infinity then (d, p, Suc its)
        else
          (case update_neighbors g currentNode visited (d, p) of
             (d', p') \<Rightarrow>
               if currentNode = dest then (d', p', Suc its)
               else dijkstra_loop g dest
                      (d', p', insert currentNode visited, removeAll currentNode unvisited, Suc its)))"
  by pat_completeness auto
termination
proof (relation "measure (\<lambda>(g, dest, d, p, visited, unvisited, its). length unvisited)")
  show "wf (measure (\<lambda>(g, dest, d, p, visited, unvisited, its). length unvisited))"
    by simp
next
  fix g :: graph and dest :: string and d :: distmap and p :: prevmap
    and visited :: "string set" and unvisited :: "string list" and its :: nat
    and x :: string and xa :: "distmap \<times> prevmap" and xb :: distmap and y :: prevmap
  assume ne: "unvisited \<noteq> []" and x: "x = min_node d unvisited"
  have "foldl (\<lambda>m node. if js_lt (d node) (d m) then node else m) a xs \<in> insert a (set xs)" for a xs
    by (induction xs arbitrary: a) (auto split: if_splits)
  from this [of "hd unvisited" "tl unvisited"] ne x have "x \<in> set unvisited"
    by (cases unvisited) (auto simp: min_node_def)
  then have "length (removeAll x unvisited) < length unvisited"
    by (simp add: length_removeAll_less)
  then show "((g, dest, xb, y, insert x visited, removeAll x unvisited, Suc its),
              (g, dest, d, p, visited, unvisited, its))
             \<in> measure (\<lambda>(g, dest, d, p, visited, unvisited, its). length unvisited)"
    by simp
qed

declare dijkstra_loop.simps [simp del]

definition dijkstra_execute :: "Node list \<Rightarrow> Edge list \<Rightarrow> string \<Rightarrow> string \<Rightarrow> (error + AlgorithmResult) option" where
  "dijkstra_execute nodes edges src dest =
     (case build_graph (init_graph nodes) edges of
        Inl err \<Rightarrow> Some (Inl err)
      | Inr g \<Rightarrow>
          (case dijkstra_loop g dest
                  (init_distances nodes src, init_previous nodes, {}, new_Set (map node_id nodes), 0) of
             (d, p, its) \<Rightarrow> map_option Inr (assemble nodes src dest d p its)))"

section \<open>BGP-style path selection\<close>

record BGPPath =
  bgp_path :: "string list"
  bgp_weight :: int
  localPref :: int
  asPathLength :: int
  med :: int
  igpCost :: int

definition neighbor_of :: "Edge \<Rightarrow> string \<Rightarrow> string option" where
  "neighbor_of edge current =
     (if source edge = current then Some (target edge)
      else if target edge = current then Some (source edge)
      else None)"

text \<open>
  The depth-first enumeration of \<open>findAllPaths\<close>. Every call that adds \<open>current\<close> to the
  shared \<open>visited\<close> set and to \<open>path\<close> removes it again before it returns, so both are
  passed by value; the result is the list of the paths pushed, in the order of the pushes.
  \<open>if (neighbor && ...)\<close> is false for \<open>null\<close> and for the empty string.
\<close>

function dfs ::
  "Edge list \<Rightarrow> string \<Rightarrow> nat \<Rightarrow> string \<Rightarrow> string list \<Rightarrow> string set \<Rightarrow> nat \<Rightarrow> string list list" where
  "dfs edges endNode maxDepth current pth visited depth =
     (if depth > maxDepth then []
      else if current = endNode then [pth @ [current]]
      else if current \<in> visited then []
      else concat (map (\<lambda>edge.
             (case neighbor_of edge current of
                None \<Rightarrow> []
              | Some neighbor \<Rightarrow>
                  if neighbor \<noteq> [] \<and> neighbor \<notin> insert current visited
                  then dfs edges endNode maxDepth neighbor (pth @ [current])
                         (insert current visited) (Suc depth)
                  else [])) edges))"
  by pat_completeness auto
termination
  by (relation "measure (\<lambda>(edges, endNode, maxDepth, current, pth, visited, depth). Suc maxDepth - depth)")
     auto

declare dfs.simps [simp del]

definition findAllPaths :: "Node list \<Rightarrow> Edge list \<Rightarrow> string \<Rightarrow> string \<Rightarrow> string list list" where
  "findAllPaths nodes edges start endNode = dfs edges endNode 10 start [] {} 0"

fun path_weight_from :: "Edge list \<Rightarrow> int \<Rightarrow> string list \<Rightarrow> int" where
  "path_weight_from edges totalWeight (a # b # rest) =
     path_weight_from edges
       (case find (\<lambda>e. (source e = a \<and> target e = b) \<or> (target e = a \<and> source e = b)) edges of
          Some edge \<Rightarrow> totalWeight + weight edge
        | None \<Rightarrow> totalWeight)
       (b # rest)"
| "path_weight_from edges totalWeight _ = totalWeight"

definition calculatePathWeight :: "string list \<Rightarrow> Edge list \<Rightarrow> int" where
  "calculatePathWeight pth edges = path_weight_from edges 0 pth"

text \<open>
  \<open>Math.max(...)\<close> and \<open>Math.min(...)\<close> are only applied to the attributes of a list with
  at least one element.
\<close>

definition selectBestPath :: "BGPPath list \<Rightarrow> BGPPath option" where
  "selectBestPath paths =
     (if length paths = 0 then None
      else if length paths = 1 then Some (hd paths)
      else
        let maxLocalPref = Max (set (map localPref paths));
            bestPaths1 = filter (\<lambda>p. localPref p = maxLocalPref) paths
        in if length bestPaths1 = 1 then Some (hd bestPaths1)
        else
          let minAsPath = Min (set (map asPathLength bestPaths1));
              bestPaths2 = filter (\<lambda>p. asPathLength p = minAsPath) bestPaths1
          in if length bestPaths2 = 1 then Some (hd bestPaths2)
          else
            let minMed = Min (set (map med bestPaths2));
                bestPaths3 = filter (\<lambda>p. med p = minMed) bestPaths2
            in if length bestPaths3 = 1 then Some (hd bestPaths3)
            else
              let minIgpCost = Min (set (map igpCost bestPaths3));
                  bestPaths4 = filter (\<lambda>p. igpCost p = minIgpCost) bestPaths3
              in Some (hd bestPaths4))"

text \<open>
  \<open>Math.random()\<close> is a sequence \<open>rnd\<close> of draws from \<open>[0, 1)\<close>, read at a counter; a path
  takes two draws, the local preference first and the MED second.
\<close>

fun with_attributes :: "(nat \<Rightarrow> real) \<Rightarrow> nat \<Rightarrow> Edge list \<Rightarrow> string list list \<Rightarrow> BGPPath list" where
  "with_attributes rnd k edges [] = []"
| "with_attributes rnd k edges (p # ps) =
     \<lparr>bgp_path = p,
      bgp_weight = calculatePathWeight p edges,
      localPref = \<lfloor>rnd k * 100\<rfloor> + 100,
      asPathLength = int (length p) - 1,
      med = \<lfloor>rnd (Suc k) * 50\<rfloor>,
      igpCost = calculatePathWeight p edges\<rparr> # with_attributes rnd (k + 2) edges ps"

fun seed_path :: "int \<Rightarrow> string list \<Rightarrow> nat \<Rightarrow> string list \<Rightarrow> distmap \<times> prevmap \<Rightarrow> distmap \<times> prevmap" where
  "seed_path w whole index [] dp = dp"
| "seed_path w whole index (nodeId # rest) (d, p) =
     seed_path w whole (Suc index) rest
       (d(nodeId \<mapsto> (if index = 0 then Fin 0 else Fin w)),
        (if index > 0 then p(nodeId \<mapsto> Some (whole ! (index - 1))) else p))"

fun bgp_rows ::
  "(nat \<Rightarrow> real) \<Rightarrow> nat \<Rightarrow> Edge list \<Rightarrow> string \<Rightarrow> string list list \<Rightarrow> Node list \<Rightarrow> RoutingTableEntry list" where
  "bgp_rows rnd k edges src allPaths [] = []"
| "bgp_rows rnd k edges src allPaths (n # ns) =
     (if node_id n \<noteq> src then
        let pathsToNode = filter (\<lambda>p. p \<noteq> [] \<and> last p = node_id n) allPaths
        in if length pathsToNode > 0 then
             (case selectBestPath (with_attributes rnd k edges pathsToNode) of
                None \<Rightarrow> bgp_rows rnd (k + 2 * length pathsToNode) edges src allPaths ns
              | Some b \<Rightarrow>
                  \<lparr>destination = node_id n,
                   nextHop = (if length (bgp_path b) > 1 then bgp_path b ! 1 else node_id n),
                   cost = Fin (bgp_weight b),
                   hops = int (length (bgp_path b)) - 1,
                   route = bgp_path b\<rparr>
                  # bgp_rows rnd (k + 2 * length pathsToNode) edges src allPaths ns)
           else bgp_rows rnd k edges src allPaths ns
      else bgp_rows rnd k edges src allPaths ns)"

definition bgp_execute :: "(nat \<Rightarrow> real) \<Rightarrow> Node list \<Rightarrow> Edge list \<Rightarrow> string \<Rightarrow> string \<Rightarrow> AlgorithmResult" where
  "bgp_execute rnd nodes edges src dest =
     (let allPaths = findAllPaths nodes edges src dest
      in if length allPaths = 0
         then \<lparr>distances = Map.empty, previous = Map.empty, path = [], routingTable = [],
               iterations = length allPaths\<rparr>
         else
           let bestPath = selectBestPath (with_attributes rnd 0 edges allPaths);
               d0 = foldl (\<lambda>d n. d(node_id n \<mapsto> Infinity)) Map.empty nodes;
               p0 = init_previous nodes;
               dp = (case bestPath of
                       None \<Rightarrow> (d0, p0)
                     | Some b \<Rightarrow> seed_path (bgp_weight b) (bgp_path b) 0 (bgp_path b) (d0, p0))
           in \<lparr>distances = fst dp, previous = snd dp,
                path = (case bestPath of None \<Rightarrow> [] | Some b \<Rightarrow> bgp_path b),
                routingTable = bgp_rows rnd (2 * length allPaths) edges src allPaths nodes,
                iterations = length allPaths\<rparr>)"

section \<open>The sample topology\<close>

text \<open>\<open>initialNodes\<close> and \<open>initialEdges\<close> of the application: the six-router sample network.\<close>

definition initialNodes :: "Node list" where
  "initialNodes =
     [\<lparr>node_id = ''A''\<rparr>, \<lparr>node_id = ''B''\<rparr>, \<lparr>node_id = ''C''\<rparr>,
      \<lparr>node_id = ''D''\<rparr>, \<lparr>node_id = ''E''\<rparr>, \<lparr>node_id = ''F''\<rparr>]"

definition initialEdges :: "Edge list" where
  "initialEdges =
     [\<lparr>edge_id = ''A-B'', source = ''A'', target = ''B'', weight = 4\<rparr>,
      \<lparr>edge_id = ''A-D'', source = ''A'', target = ''D'', weight = 2\<rparr>,
      \<lparr>edge_id = ''B-C'', source = ''B'', target = ''C'', weight = 3\<rparr>,
      \<lparr>edge_id = ''B-F'', source = ''B'', target = ''F'', weight = 1\<rparr>,
      \<lparr>edge_id = ''C-E'', source = ''C'', target = ''E'', weight = 2\<rparr>,
      \<lparr>edge_id = ''D-F'', source = ''D'', target = ''F'', weight = 5\<rparr>,
      \<lparr>edge_id = ''D-E'', source = ''D'', target = ''E'', weight = 7\<rparr>,
      \<lparr>edge_id = ''F-E'', source = ''F'', target = ''E'', weight = 3\<rparr>]"

text \<open>The part of a run's outcome that the scenario speaks about: the distance of a node and the path.\<close>

definition distance_and_path :: "string \<Rightarrow> (error + AlgorithmResult) option \<Rightarrow> (error + jsnum option \<times> string list) option" where
  "distance_and_path v = map_option (map_sum id (\<lambda>r. (distances r v, path r)))"

section \<open>The election of the specification\<close>

text \<open>
  The election as the specification words it: four filters applied one after the other, each
  keeping the candidates with the best value of its criterion, with no early exit.
\<close>

definition keep_max :: "(BGPPath \<Rightarrow> int) \<Rightarrow> BGPPath list \<Rightarrow> BGPPath list" where
  "keep_max f ps = filter (\<lambda>p. f p = Max (set (map f ps))) ps"

definition keep_min :: "(BGPPath \<Rightarrow> int) \<Rightarrow> BGPPath list \<Rightarrow> BGPPath list" where
  "keep_min f ps = filter (\<lambda>p. f p = Min (set (map f ps))) ps"

definition election :: "BGPPath list \<Rightarrow> BGPPath list" where
  "election ps = keep_min igpCost (keep_min med (keep_min asPathLength (keep_max localPref ps)))"


section \<open>Notions used to state the properties of Bellman-Ford\<close>

text \<open>One relaxation pass as a function of the distance and predecessor maps.\<close>

definition pass :: "Edge list \<Rightarrow> distmap \<times> prevmap \<Rightarrow> distmap \<times> prevmap" where
  "pass edges dp = (case relax_pass edges dp of (d, p, hasUpdate) \<Rightarrow> (d, p))"

text \<open>An edge that can still be relaxed, in one direction or the other.\<close>

definition edge_relaxable :: "distmap \<Rightarrow> Edge \<Rightarrow> bool" where
  "edge_relaxable d e \<longleftrightarrow>
     relaxable d (source e) (target e) (weight e) \<or> relaxable d (target e) (source e) (weight e)"

definition node_ids :: "Node list \<Rightarrow> string set" where
  "node_ids nodes = node_id ` set nodes"

text \<open>
  Reachability in the undirected graph: the source, when it is a node, and every node
  joined by an edge to a reachable node.
\<close>

inductive reachable :: "Node list \<Rightarrow> Edge list \<Rightarrow> string \<Rightarrow> string \<Rightarrow> bool"
  for nodes :: "Node list" and edges :: "Edge list" and src :: string where
  reach_source: "src \<in> node_ids nodes \<Longrightarrow> reachable nodes edges src src"
| reach_forward: "reachable nodes edges src u \<Longrightarrow> e \<in> set edges \<Longrightarrow> source e = u \<Longrightarrow>
     target e \<in> node_ids nodes \<Longrightarrow> reachable nodes edges src (target e)"
| reach_backward: "reachable nodes edges src u \<Longrightarrow> e \<in> set edges \<Longrightarrow> target e = u \<Longrightarrow>
     source e \<in> node_ids nodes \<Longrightarrow> reachable nodes edges src (source e)"

text \<open>Two nodes joined by one edge of weight \<open>-1\<close>.\<close>

definition twoNodes :: "Node list" where
  "twoNodes = [\<lparr>node_id = ''A''\<rparr>, \<lparr>node_id = ''B''\<rparr>]"

definition negativeEdge :: Edge where
  "negativeEdge = \<lparr>edge_id = ''A-B'', source = ''A'', target = ''B'', weight = - 1\<rparr>"

section \<open>Small topologies used as concrete inputs\<close>

text \<open>Three nodes in a line, A - B - C.\<close>

definition threeNodes :: "Node list" where
  "threeNodes = [\<lparr>node_id = ''A''\<rparr>, \<lparr>node_id = ''B''\<rparr>, \<lparr>node_id = ''C''\<rparr>]"

definition lineEdges :: "Edge list" where
  "lineEdges =
     [\<lparr>edge_id = ''A-B'', source = ''A'', target = ''B'', weight = 1\<rparr>,
      \<lparr>edge_id = ''B-C'', source = ''B'', target = ''C'', weight = 1\<rparr>]"

text \<open>A triangle: the direct link A - C costs 10, the detour over B costs 2.\<close>

definition triangleEdges :: "Edge list" where
  "triangleEdges =
     [\<lparr>edge_id = ''A-C'', source = ''A'', target = ''C'', weight = 10\<rparr>,
      \<lparr>edge_id = ''A-B'', source = ''A'', target = ''B'', weight = 1\<rparr>,
      \<lparr>edge_id = ''B-C'', source = ''B'', target = ''C'', weight = 1\<rparr>]"

text \<open>
  Two sequences of draws of \<open>Math.random()\<close>: all draws 0, and all draws 0 but the
  seventh (index 6), which is 1/2.
\<close>

definition zeroDraws :: "nat \<Rightarrow> real" where
  "zeroDraws i = 0"


text \<open>Three nodes of which only A and B are linked: C has no path from A.\<close>

definition oneLink :: "Edge list" where
  "oneLink = [\<lparr>edge_id = ''A-B'', source = ''A'', target = ''B'', weight = 1\<rparr>]"

text \<open>
  A line A - B - C whose first link weighs \<open>2^54\<close> and whose second link weighs \<open>-1\<close>: the
  double nearest to \<open>2^54 - 1\<close> is \<open>2^54\<close>.
\<close>

definition absorbingEdges :: "Edge list" where
  "absorbingEdges =
     [\<lparr>edge_id = ''A-B'', source = ''A'', target = ''B'', weight = 18014398509481984\<rparr>,
      \<lparr>edge_id = ''B-C'', source = ''B'', target = ''C'', weight = - 1\<rparr>]"

text \<open>
  Five nodes and five links, with weights \<open>2^53 + 4\<close>, 2, \<open>-1\<close>, \<open>2^53\<close> and 4; the third
  link, between D and B, is a parameter.
\<close>

definition fiveNodes :: "Node list" where
  "fiveNodes =
     [\<lparr>node_id = ''A''\<rparr>, \<lparr>node_id = ''C''\<rparr>, \<lparr>node_id = ''D''\<rparr>,
      \<lparr>node_id = ''B''\<rparr>, \<lparr>node_id = ''E''\<rparr>]"

definition linkDB :: Edge where
  "linkDB = \<lparr>edge_id = ''D-B'', source = ''D'', target = ''B'', weight = - 1\<rparr>"

definition largeEdges :: "Edge \<Rightarrow> Edge list" where
  "largeEdges e =
     [\<lparr>edge_id = ''A-C'', source = ''A'', target = ''C'', weight = 9007199254740996\<rparr>,
      \<lparr>edge_id = ''C-D'', source = ''C'', target = ''D'', weight = 2\<rparr>,
      e,
      \<lparr>edge_id = ''A-E'', source = ''A'', target = ''E'', weight = 9007199254740992\<rparr>,
      \<lparr>edge_id = ''E-D'', source = ''E'', target = ''D'', weight = 4\<rparr>]"

section \<open>Reversing an edge\<close>

definition reverse_edge :: "Edge \<Rightarrow> Edge" where
  "reverse_edge e = e\<lparr>source := target e, target := source e\<rparr>"

section \<open>Keys of plain objects\<close>

text \<open>The names of the properties that every plain object inherits from \<open>Object.prototype\<close>.\<close>

definition object_prototype_keys :: "string list" where
  "object_prototype_keys =
     [''__proto__'', ''constructor'', ''hasOwnProperty'', ''isPrototypeOf'',
      ''propertyIsEnumerable'', ''toLocaleString'', ''toString'', ''valueOf'',
      ''__defineGetter__'', ''__defineSetter__'', ''__lookupGetter__'', ''__lookupSetter__'']"

text \<open>
  The keys on which a plain object and a map agree: no node is called \<open>__proto__\<close> (an
  assignment to any other inherited name creates an entry of the object itself), and an
  edge endpoint that is not a node, whose key is only ever looked up, is not an
  inherited name.
\<close>

definition plain_keys :: "Node list \<Rightarrow> Edge list \<Rightarrow> bool" where
  "plain_keys nodes edges \<longleftrightarrow>
     ''__proto__'' \<notin> node_ids nodes
     \<and> (\<forall>e\<in>set edges. \<forall>k\<in>{source e, target e}.
           k \<in> node_ids nodes \<or> k \<notin> set object_prototype_keys)"

section \<open>Relaxation steps and the invariants of the two path-cost engines\<close>

text \<open>Two nodes joined by an edge of weight \<open>w\<close>, in one direction or the other.\<close>

definition joined :: "Edge list \<Rightarrow> string \<Rightarrow> string \<Rightarrow> int \<Rightarrow> bool" where
  "joined edges u v w \<longleftrightarrow>
     (\<exists>e\<in>set edges. weight e = w \<and> ((source e = u \<and> target e = v) \<or> (target e = u \<and> source e = v)))"

text \<open>
  The relaxation both engines perform: when \<open>distances[f] + w < distances[t]\<close>, the distance
  of \<open>t\<close> becomes \<open>distances[f] + w\<close> and its predecessor \<open>f\<close>.
\<close>

definition relax_step :: "distmap \<times> prevmap \<Rightarrow> string \<Rightarrow> string \<Rightarrow> int \<Rightarrow> distmap \<times> prevmap" where
  "relax_step dp f t w =
     (if relaxable (fst dp) f t w
      then ((fst dp)(t := js_add (fst dp f) w), (snd dp)(t \<mapsto> Some f))
      else dp)"

text \<open>
  The maps are confined to the part of the graph that the source reaches: their keys are
  the node ids, and a node that is not reachable from the source has the distance
  \<open>Infinity\<close> and the predecessor \<open>null\<close> of the initialisation.
\<close>

definition confined :: "Node list \<Rightarrow> Edge list \<Rightarrow> string \<Rightarrow> distmap \<times> prevmap \<Rightarrow> bool" where
  "confined nodes edges src dp \<longleftrightarrow>
     dom (fst dp) = node_ids nodes \<and> dom (snd dp) = node_ids nodes
     \<and> (\<forall>v\<in>node_ids nodes. \<not> reachable nodes edges src v \<longrightarrow>
           fst dp v = Some Infinity \<and> snd dp v = Some None)"

text \<open>The weight the adjacency structure holds for a pair of nodes.\<close>

definition adjw :: "graph \<Rightarrow> string \<Rightarrow> string \<Rightarrow> int option" where
  "adjw g v n = (case g v of None \<Rightarrow> None | Some adj \<Rightarrow> map_of adj n)"

text \<open>Every edge joins two nodes of the list.\<close>

definition endpoints_known :: "Node list \<Rightarrow> Edge list \<Rightarrow> bool" where
  "endpoints_known nodes edges \<longleftrightarrow>
     (\<forall>e\<in>set edges. source e \<in> node_ids nodes \<and> target e \<in> node_ids nodes)"


section \<open>Predecessor chains and the rows of the routing table\<close>

text \<open>The predecessor chain of a node ends at \<open>null\<close>.\<close>

inductive ends :: "prevmap \<Rightarrow> string \<Rightarrow> bool" for p :: prevmap where
  ends_null: "p v = Some None \<Longrightarrow> ends p v"
| ends_step: "p v = Some (Some u) \<Longrightarrow> ends p u \<Longrightarrow> ends p v"

text \<open>
  The rows the routing table must hold: the nodes other than the source whose distance
  is not \<open>Infinity\<close>, in the order of the node list.
\<close>

definition table_nodes :: "distmap \<Rightarrow> string \<Rightarrow> Node list \<Rightarrow> string list" where
  "table_nodes d src nodes =
     map node_id (filter (\<lambda>n. node_id n \<noteq> src \<and> d (node_id n) \<noteq> Some Infinity) nodes)"

text \<open>Every finite distance is a double.\<close>

definition doubles :: "distmap \<Rightarrow> bool" where
  "doubles d \<longleftrightarrow> (\<forall>v a. d v = Some (Fin a) \<longrightarrow> round_double a = Fin a)"

text \<open>
  The predecessor links of Dijkstra: every predecessor is a node of the set \<open>S\<close> (the
  visited nodes and the current one), and the chain of every key ends.
\<close>

definition rooted :: "string set \<Rightarrow> prevmap \<Rightarrow> bool" where
  "rooted S p \<longleftrightarrow>
     (\<forall>v u. p v = Some (Some u) \<longrightarrow> u \<in> S) \<and> (\<forall>v. p v \<noteq> None \<longrightarrow> ends p v)"

text \<open>No edge of negative weight joins a node to itself.\<close>

definition no_negative_loops :: "Edge list \<Rightarrow> bool" where
  "no_negative_loops edges \<longleftrightarrow> (\<forall>e\<in>set edges. source e = target e \<longrightarrow> 0 \<le> weight e)"

section \<open>Notions for graphs without a negative edge between reachable nodes\<close>

text \<open>Every edge that joins two nodes reachable from the source has a non-negative weight.\<close>

definition safe :: "Node list \<Rightarrow> Edge list \<Rightarrow> string \<Rightarrow> bool" where
  "safe nodes edges src \<longleftrightarrow>
     (\<forall>e\<in>set edges. reachable nodes edges src (source e) \<and> reachable nodes edges src (target e)
        \<longrightarrow> 0 \<le> weight e)"

text \<open>Every distance is \<open>Infinity\<close> or a non-negative double.\<close>

definition proper :: "distmap \<Rightarrow> bool" where
  "proper d \<longleftrightarrow>
     (\<forall>v. d v \<noteq> Some NegInfinity) \<and> (\<forall>v a. d v = Some (Fin a) \<longrightarrow> 0 \<le> a \<and> round_double a = Fin a)"

text \<open>
  The predecessor links form a forest along which distances do not increase: a
  predecessor is no farther than its successor, and the chain of every key ends.
\<close>

definition tree :: "distmap \<times> prevmap \<Rightarrow> bool" where
  "tree dp \<longleftrightarrow>
     (\<forall>v u. snd dp v = Some (Some u) \<longrightarrow>
        (\<exists>a b. fst dp u = Some (Fin a) \<and> fst dp v = Some (Fin b) \<and> a \<le> b))
     \<and> (\<forall>v. fst dp v \<noteq> None \<longrightarrow> ends (snd dp) v)"

text \<open>
  A simple path from the source: the list of its nodes, the last node reached first, and
  its weight as the engines add it up, one link after the other from the source, every
  sum being a finite double.
\<close>

inductive spath :: "Node list \<Rightarrow> Edge list \<Rightarrow> string \<Rightarrow> string list \<Rightarrow> int \<Rightarrow> bool"
  for nodes :: "Node list" and edges :: "Edge list" and src :: string where
  sp_source: "src \<in> node_ids nodes \<Longrightarrow> spath nodes edges src [src] 0"
| sp_step: "spath nodes edges src (u # vs) c \<Longrightarrow> joined edges u v w \<Longrightarrow> v \<in> node_ids nodes \<Longrightarrow>
     v \<notin> set (u # vs) \<Longrightarrow> round_double (c + w) = Fin c' \<Longrightarrow> spath nodes edges src (v # u # vs) c'"

text \<open>Every finite distance is at least the weight of some simple path to the node.\<close>

definition above_simple :: "Node list \<Rightarrow> Edge list \<Rightarrow> string \<Rightarrow> distmap \<times> prevmap \<Rightarrow> bool" where
  "above_simple nodes edges src dp \<longleftrightarrow>
     (\<forall>v a. fst dp v = Some (Fin a) \<longrightarrow> (\<exists>vs c. spath nodes edges src (v # vs) c \<and> c \<le> a))"

text \<open>Distances only decrease: every key keeps its value or gets a smaller one.\<close>

definition decreased :: "distmap \<Rightarrow> distmap \<Rightarrow> bool" where
  "decreased d d' \<longleftrightarrow> dom d' = dom d \<and> (\<forall>v. d' v = d v \<or> js_lt (d' v) (d v))"

text \<open>The distances are below the weight of every simple path of at most \<open>k\<close> edges.\<close>

definition settled :: "Node list \<Rightarrow> Edge list \<Rightarrow> string \<Rightarrow> nat \<Rightarrow> distmap \<Rightarrow> bool" where
  "settled nodes edges src k d \<longleftrightarrow>
     (\<forall>v vs c. spath nodes edges src (v # vs) c \<and> length vs \<le> k \<longrightarrow> (\<exists>a. d v = Some (Fin a) \<and> a \<le> c))"

text \<open>The invariant of both engines on a graph without a negative edge between reachable nodes.\<close>

definition good :: "Node list \<Rightarrow> Edge list \<Rightarrow> string \<Rightarrow> distmap \<times> prevmap \<Rightarrow> bool" where
  "good nodes edges src dp \<longleftrightarrow>
     confined nodes edges src dp \<and> proper (fst dp) \<and> tree dp \<and> above_simple nodes edges src dp"


section \<open>The scenario of the sample topology\<close>

text \<open>
  Claim C4. On the sample topology with source A and destination E, Dijkstra returns
  distance 8 for E and the path A, B, F, E, and Bellman-Ford returns exactly the same
  distance and path.
\<close>

theorem scenario_A_to_E:
  "distance_and_path ''E'' (dijkstra_execute initialNodes initialEdges ''A'' ''E'')
     = Some (Inr (Some (Fin 8), [''A'', ''B'', ''F'', ''E'']))
   \<and> distance_and_path ''E'' (bf_execute initialNodes initialEdges ''A'' ''E'')
     = Some (Inr (Some (Fin 8), [''A'', ''B'', ''F'', ''E'']))"
  by code_simp

section \<open>Best-path election\<close>

lemma keep_max_nonempty: "ps \<noteq> [] \<Longrightarrow> keep_max f ps \<noteq> []"
proof -
  assume ne: "ps \<noteq> []"
  then have "Max (set (map f ps)) \<in> set (map f ps)"
    by (intro Max_in) auto
  then obtain p where "p \<in> set ps" "f p = Max (set (map f ps))" by auto
  then show ?thesis by (auto simp: keep_max_def filter_empty_conv)
qed

lemma keep_min_nonempty: "ps \<noteq> [] \<Longrightarrow> keep_min f ps \<noteq> []"
proof -
  assume ne: "ps \<noteq> []"
  then have "Min (set (map f ps)) \<in> set (map f ps)"
    by (intro Min_in) auto
  then obtain p where "p \<in> set ps" "f p = Min (set (map f ps))" by auto
  then show ?thesis by (auto simp: keep_min_def filter_empty_conv)
qed

lemma keep_min_single: "keep_min f [p] = [p]"
  by (simp add: keep_min_def)

lemma length_one: "length xs = 1 \<Longrightarrow> xs = [hd xs]"
  by (cases xs) auto

lemma keep_max_set: "p \<in> set (keep_max f ps) \<longleftrightarrow> p \<in> set ps \<and> (\<forall>q \<in> set ps. f q \<le> f p)"
proof (cases "ps = []")
  case True then show ?thesis by (simp add: keep_max_def)
next
  case False
  then have m: "Max (set (map f ps)) \<in> set (map f ps)" by (intro Max_in) auto
  show ?thesis
  proof
    assume "p \<in> set (keep_max f ps)"
    then have "p \<in> set ps" "f p = Max (set (map f ps))" by (auto simp: keep_max_def)
    then show "p \<in> set ps \<and> (\<forall>q \<in> set ps. f q \<le> f p)" by auto
  next
    assume a: "p \<in> set ps \<and> (\<forall>q \<in> set ps. f q \<le> f p)"
    have "f p = Max (set (map f ps))"
    proof (rule antisym)
      show "f p \<le> Max (set (map f ps))" using a by (intro Max_ge) auto
      show "Max (set (map f ps)) \<le> f p" using m a by auto
    qed
    then show "p \<in> set (keep_max f ps)" using a by (auto simp: keep_max_def)
  qed
qed

lemma keep_min_set: "p \<in> set (keep_min f ps) \<longleftrightarrow> p \<in> set ps \<and> (\<forall>q \<in> set ps. f p \<le> f q)"
proof (cases "ps = []")
  case True then show ?thesis by (simp add: keep_min_def)
next
  case False
  then have m: "Min (set (map f ps)) \<in> set (map f ps)" by (intro Min_in) auto
  show ?thesis
  proof
    assume "p \<in> set (keep_min f ps)"
    then have "p \<in> set ps" "f p = Min (set (map f ps))" by (auto simp: keep_min_def)
    then show "p \<in> set ps \<and> (\<forall>q \<in> set ps. f p \<le> f q)" by auto
  next
    assume a: "p \<in> set ps \<and> (\<forall>q \<in> set ps. f p \<le> f q)"
    have "f p = Min (set (map f ps))"
    proof (rule antisym)
      show "Min (set (map f ps)) \<le> f p" using a by (intro Min_le) auto
      show "f p \<le> Min (set (map f ps))" using m a by auto
    qed
    then show "p \<in> set (keep_min f ps)" using a by (auto simp: keep_min_def)
  qed
qed

lemma selectBestPath_election:
  assumes "paths \<noteq> []"
  shows "selectBestPath paths = Some (hd (election paths))"
proof (cases "length paths = 1")
  case True
  then have "paths = [hd paths]" by (rule length_one)
  then obtain p where p: "paths = [p]" by blast
  show ?thesis unfolding p by (simp add: selectBestPath_def election_def keep_min_def keep_max_def)
next
  case False
  define b1 where "b1 = keep_max localPref paths"
  define b2 where "b2 = keep_min asPathLength b1"
  define b3 where "b3 = keep_min med b2"
  have sel: "selectBestPath paths =
    (if length b1 = 1 then Some (hd b1) else if length b2 = 1 then Some (hd b2)
     else if length b3 = 1 then Some (hd b3) else Some (hd (keep_min igpCost b3)))"
    using assms False
    by (simp add: selectBestPath_def Let_def b1_def b2_def b3_def keep_max_def keep_min_def)
  have el: "election paths = keep_min igpCost b3"
    by (simp add: election_def b1_def b2_def b3_def)
  show ?thesis
  proof (cases "length b1 = 1")
    case True
    then obtain p where "b1 = [p]" using length_one by blast
    then show ?thesis using sel el by (simp add: b2_def b3_def keep_min_single)
  next
    case n1: False
    show ?thesis
    proof (cases "length b2 = 1")
      case True
      then obtain p where "b2 = [p]" using length_one by blast
      then show ?thesis using sel el n1 by (simp add: b3_def keep_min_single)
    next
      case n2: False
      show ?thesis
      proof (cases "length b3 = 1")
        case True
        then obtain p where "b3 = [p]" using length_one by blast
        then show ?thesis using sel el n1 n2 by (simp add: keep_min_single)
      next
        case False
        then show ?thesis using sel el n1 n2 by simp
      qed
    qed
  qed
qed

lemma hd_filter_find: "filter P xs \<noteq> [] \<Longrightarrow> find P xs = Some (hd (filter P xs))"
  by (induction xs) auto

lemma filter_filter_set: "filter P (filter Q xs) = filter (\<lambda>x. Q x \<and> P x) xs"
  by simp


lemma election_nonempty: "ps \<noteq> [] \<Longrightarrow> election ps \<noteq> []"
  by (simp add: election_def keep_min_nonempty keep_max_nonempty)

lemma election_filter:
  assumes "b \<in> set (election ps)"
  shows "election ps = filter (\<lambda>p. localPref p = localPref b \<and> asPathLength p = asPathLength b
            \<and> med p = med b \<and> igpCost p = igpCost b) ps"
proof -
  define b1 where "b1 = keep_max localPref ps"
  define b2 where "b2 = keep_min asPathLength b1"
  define b3 where "b3 = keep_min med b2"
  have b: "b \<in> set (keep_min igpCost b3)"
    using assms by (simp add: election_def b1_def b2_def b3_def)
  then have i4: "igpCost b = Min (set (map igpCost b3))" and m3: "b \<in> set b3"
    by (auto simp: keep_min_def)
  from m3 have i3: "med b = Min (set (map med b2))" and m2: "b \<in> set b2"
    by (auto simp: keep_min_def b3_def)
  from m2 have i2: "asPathLength b = Min (set (map asPathLength b1))" and m1: "b \<in> set b1"
    by (auto simp: keep_min_def b2_def)
  from m1 have i1: "localPref b = Max (set (map localPref ps))"
    by (auto simp: keep_max_def b1_def)
  have "election ps = keep_min igpCost b3"
    by (simp add: election_def b1_def b2_def b3_def)
  also have "\<dots> = filter (\<lambda>p. igpCost p = igpCost b) b3"
    by (simp add: keep_min_def i4)
  also have "b3 = filter (\<lambda>p. med p = med b) b2"
    by (simp add: b3_def keep_min_def i3)
  also have "b2 = filter (\<lambda>p. asPathLength p = asPathLength b) b1"
    by (simp add: b2_def keep_min_def i2)
  also have "b1 = filter (\<lambda>p. localPref p = localPref b) ps"
    by (simp add: b1_def keep_max_def i1)
  finally show ?thesis
    by (simp add: conj_assoc)
qed

lemma election_set:
  assumes "b \<in> set (election ps)"
  shows "b \<in> set ps
     \<and> (\<forall>p\<in>set ps. localPref p \<le> localPref b)
     \<and> (\<forall>p\<in>set ps. localPref p = localPref b \<longrightarrow> asPathLength b \<le> asPathLength p)
     \<and> (\<forall>p\<in>set ps. localPref p = localPref b \<and> asPathLength p = asPathLength b \<longrightarrow> med b \<le> med p)
     \<and> (\<forall>p\<in>set ps. localPref p = localPref b \<and> asPathLength p = asPathLength b \<and> med p = med b
            \<longrightarrow> igpCost b \<le> igpCost p)"
proof -
  define b1 where "b1 = keep_max localPref ps"
  define b2 where "b2 = keep_min asPathLength b1"
  define b3 where "b3 = keep_min med b2"
  from assms have "b \<in> set (keep_min igpCost b3)"
    by (simp add: election_def b1_def b2_def b3_def)
  then have m3: "b \<in> set b3" and o4: "\<forall>q\<in>set b3. igpCost b \<le> igpCost q"
    by (simp_all add: keep_min_set)
  from m3 have m2: "b \<in> set b2" and o3: "\<forall>q\<in>set b2. med b \<le> med q"
    by (simp_all add: b3_def keep_min_set)
  from m2 have m1: "b \<in> set b1" and o2: "\<forall>q\<in>set b1. asPathLength b \<le> asPathLength q"
    by (simp_all add: b2_def keep_min_set)
  from m1 have m0: "b \<in> set ps" and o1: "\<forall>q\<in>set ps. localPref q \<le> localPref b"
    by (simp_all add: b1_def keep_max_set)
  have in1: "p \<in> set b1" if "p \<in> set ps" "localPref p = localPref b" for p
    using that o1 by (simp add: b1_def keep_max_set)
  have in2: "p \<in> set b2" if "p \<in> set ps" "localPref p = localPref b" "asPathLength p = asPathLength b" for p
    using that in1 [of p] o2 by (simp add: b2_def keep_min_set)
  have in3: "p \<in> set b3"
    if "p \<in> set ps" "localPref p = localPref b" "asPathLength p = asPathLength b" "med p = med b" for p
    using that in2 [of p] o3 by (simp add: b3_def keep_min_set)
  show ?thesis
    using m0 o1 o2 o3 o4 in1 in2 in3 by blast
qed




lemma select_characterised:
  assumes ne: "paths \<noteq> []"
  shows "\<exists>b. selectBestPath paths = Some b \<and> b = hd (election paths) \<and> b \<in> set paths
         \<and> (\<forall>p\<in>set paths. localPref p \<le> localPref b)
         \<and> (\<forall>p\<in>set paths. localPref p = localPref b \<longrightarrow> asPathLength b \<le> asPathLength p)
         \<and> (\<forall>p\<in>set paths. localPref p = localPref b \<and> asPathLength p = asPathLength b \<longrightarrow> med b \<le> med p)
         \<and> (\<forall>p\<in>set paths. localPref p = localPref b \<and> asPathLength p = asPathLength b \<and> med p = med b
                \<longrightarrow> igpCost b \<le> igpCost p)
         \<and> find (\<lambda>p. localPref p = localPref b \<and> asPathLength p = asPathLength b
                      \<and> med p = med b \<and> igpCost p = igpCost b) paths = Some b"
proof -
  define b where "b = hd (election paths)"
  have mem: "b \<in> set (election paths)"
    using election_nonempty [OF ne] by (simp add: b_def)
  let ?P = "\<lambda>p. localPref p = localPref b \<and> asPathLength p = asPathLength b
                      \<and> med p = med b \<and> igpCost p = igpCost b"
  have fl: "filter ?P paths = election paths"
    using election_filter [OF mem] by simp
  have "filter ?P paths \<noteq> []"
    unfolding fl using ne by (rule election_nonempty)
  then have "find ?P paths = Some (hd (filter ?P paths))"
    by (rule hd_filter_find)
  with fl have f: "find ?P paths = Some b"
    by (simp add: b_def)
  have s: "selectBestPath paths = Some b"
    unfolding b_def using ne by (rule selectBestPath_election)
  note c = election_set [OF mem]
  show ?thesis
    apply (rule exI [of _ b])
    apply (intro conjI)
           apply (rule s)
          apply (rule b_def)
         apply (rule c [THEN conjunct1])
        apply (rule c [THEN conjunct2, THEN conjunct1])
       apply (rule c [THEN conjunct2, THEN conjunct2, THEN conjunct1])
      apply (rule c [THEN conjunct2, THEN conjunct2, THEN conjunct2, THEN conjunct1])
     apply (rule c [THEN conjunct2, THEN conjunct2, THEN conjunct2, THEN conjunct2])
    apply (rule f)
    done
qed



section \<open>Bellman-Ford: passes and the negative-cycle error\<close>

lemma distance_and_path_Inr:
  assumes "distance_and_path v x = Some (Inr y)"
  shows "\<exists>r. x = Some (Inr r) \<and> y = (distances r v, path r)"
proof (cases x)
  case None
  with assms show ?thesis by (simp add: distance_and_path_def)
next
  case (Some s)
  with assms show ?thesis by (cases s) (auto simp: distance_and_path_def)
qed

lemma has_negative_cycle_iff: "has_negative_cycle d edges \<longleftrightarrow> (\<exists>e\<in>set edges. edge_relaxable d e)"
  by (auto simp: has_negative_cycle_def edge_relaxable_def directions_def list_ex_iff)

lemma bf_passes_count:
  "bf_passes k edges (d, p, its) = (d', p', its') \<Longrightarrow>
     its \<le> its' \<and> its' \<le> its + k \<and> (d', p') = (pass edges ^^ (its' - its)) (d, p)"
proof (induction k arbitrary: d p its)
  case 0
  then show ?case by simp
next
  case (Suc k)
  obtain d1 p1 u where rp: "relax_pass edges (d, p) = (d1, p1, u)"
    by (cases "relax_pass edges (d, p)") auto
  have ps: "pass edges (d, p) = (d1, p1)"
    by (simp add: pass_def rp)
  show ?case
  proof (cases u)
    case False
    with Suc.prems rp have "d' = d1" "p' = p1" "its' = Suc its"
      by simp_all
    then show ?thesis by (simp add: ps)
  next
    case True
    with Suc.prems rp have "bf_passes k edges (d1, p1, Suc its) = (d', p', its')"
      by simp
    from Suc.IH [OF this]
    have a: "Suc its \<le> its'" and b: "its' \<le> Suc its + k"
      and c: "(d', p') = (pass edges ^^ (its' - Suc its)) (d1, p1)"
      by simp_all
    from a have "its' - its = Suc (its' - Suc its)" by simp
    then have "(pass edges ^^ (its' - its)) (d, p) = (pass edges ^^ (its' - Suc its)) (d1, p1)"
      by (simp add: funpow_swap1 ps)
    with a b c show ?thesis by simp
  qed
qed

lemma bf_distances_count:
  "snd (snd (bf_distances nodes edges src)) \<le> length nodes - 1
   \<and> (fst (bf_distances nodes edges src), fst (snd (bf_distances nodes edges src)))
       = (pass edges ^^ snd (snd (bf_distances nodes edges src)))
           (init_distances nodes src, init_previous nodes)"
proof -
  obtain d p its where r: "bf_distances nodes edges src = (d, p, its)"
    by (cases "bf_distances nodes edges src") auto
  then have "bf_passes (length nodes - 1) edges (init_distances nodes src, init_previous nodes, 0) = (d, p, its)"
    by (simp add: bf_distances_def)
  from bf_passes_count [OF this] show ?thesis
    by (simp add: r)
qed

lemma bf_execute_error_iff:
  "bf_execute nodes edges src dest = Some (Inl NegativeCycleError)
     \<longleftrightarrow> (\<exists>e\<in>set edges. edge_relaxable (fst (bf_distances nodes edges src)) e)"
proof -
  obtain d p its where r: "bf_distances nodes edges src = (d, p, its)"
    by (cases "bf_distances nodes edges src") auto
  show ?thesis
    by (cases "assemble nodes src dest d p its")
       (simp_all add: bf_execute_def r has_negative_cycle_iff)
qed

lemma bf_execute_result:
  assumes "bf_execute nodes edges src dest = Some (Inr r)"
  shows "distances r = fst (bf_distances nodes edges src)
    \<and> previous r = fst (snd (bf_distances nodes edges src))
    \<and> iterations r = snd (snd (bf_distances nodes edges src))
    \<and> \<not> (\<exists>e\<in>set edges. edge_relaxable (distances r) e)"
proof -
  obtain d p its where b: "bf_distances nodes edges src = (d, p, its)"
    by (cases "bf_distances nodes edges src") auto
  from assms b have n: "\<not> has_negative_cycle d edges"
    and a: "assemble nodes src dest d p its = Some r"
    by (auto simp: bf_execute_def split: if_splits)
  from a have "distances r = d" "previous r = p" "iterations r = its"
    by (auto simp: assemble_def split: option.splits)
  with n b show ?thesis
    by (simp add: has_negative_cycle_iff)
qed

text \<open>
  Claim C3. Bellman-Ford runs at most \<open>|V| - 1\<close> relaxation passes (the iteration counter is
  their number, and the maps after the loop are those of that many passes) and then scans
  every edge in both directions: the call ends with the negative-cycle error exactly when
  some edge can still be relaxed in the maps the passes left. No other error is raised,
  and a result that is returned carries maps in which no edge can be relaxed.
\<close>

theorem bf_negative_cycle_error:
  "(bf_execute nodes edges src dest = Some (Inl NegativeCycleError)
      \<longleftrightarrow> (\<exists>e\<in>set edges. edge_relaxable (fst (bf_distances nodes edges src)) e))
   \<and> snd (snd (bf_distances nodes edges src)) \<le> length nodes - 1
   \<and> (fst (bf_distances nodes edges src), fst (snd (bf_distances nodes edges src)))
       = (pass edges ^^ snd (snd (bf_distances nodes edges src)))
           (init_distances nodes src, init_previous nodes)
   \<and> bf_execute nodes edges src dest \<noteq> Some (Inl TypeError)
   \<and> (\<forall>r. bf_execute nodes edges src dest = Some (Inr r) \<longrightarrow>
         distances r = fst (bf_distances nodes edges src)
         \<and> iterations r = snd (snd (bf_distances nodes edges src))
         \<and> \<not> (\<exists>e\<in>set edges. edge_relaxable (distances r) e))"
proof -
  have t: "bf_execute nodes edges src dest \<noteq> Some (Inl TypeError)"
    by (cases "bf_distances nodes edges src")
       (auto simp: bf_execute_def split: if_splits)
  show ?thesis
    using bf_execute_error_iff [of nodes edges src dest] bf_distances_count [of nodes edges src]
      t bf_execute_result [of nodes edges src dest]
    by blast
qed

theorem bf_negative_cycle_error_witness:
  "bf_execute twoNodes [negativeEdge] ''A'' ''B'' = Some (Inl NegativeCycleError)
   \<and> (\<exists>r. bf_execute initialNodes initialEdges ''A'' ''E'' = Some (Inr r)
         \<and> \<not> (\<exists>e\<in>set initialEdges. edge_relaxable (distances r) e))"
proof -
  have "edge_relaxable (fst (bf_distances twoNodes [negativeEdge] ''A'')) negativeEdge"
    by code_simp
  then have "\<exists>e\<in>set [negativeEdge]. edge_relaxable (fst (bf_distances twoNodes [negativeEdge] ''A'')) e"
    by simp
  then have 1: "bf_execute twoNodes [negativeEdge] ''A'' ''B'' = Some (Inl NegativeCycleError)"
    using bf_negative_cycle_error [of twoNodes "[negativeEdge]" "''A''" "''B''"] by blast
  have "distance_and_path ''E'' (bf_execute initialNodes initialEdges ''A'' ''E'')
          = Some (Inr (Some (Fin 8), [''A'', ''B'', ''F'', ''E'']))"
    by code_simp
  from distance_and_path_Inr [OF this]
  obtain r where r: "bf_execute initialNodes initialEdges ''A'' ''E'' = Some (Inr r)"
    by blast
  then have "\<not> (\<exists>e\<in>set initialEdges. edge_relaxable (distances r) e)"
    using bf_negative_cycle_error [of initialNodes initialEdges "''A''" "''E''"] by blast
  with 1 r show ?thesis by blast
qed


lemma init_distances_apply:
  "init_distances nodes src k =
     (if k \<in> node_ids nodes then Some (if k = src then Fin 0 else Infinity) else None)"
proof -
  have "foldl (\<lambda>d n. d(node_id n \<mapsto> (if node_id n = src then Fin 0 else Infinity))) d0 ns k =
        (if k \<in> node_id ` set ns then Some (if k = src then Fin 0 else Infinity) else d0 k)" for d0 and ns :: "Node list"
    by (induction ns arbitrary: d0) auto
  then show ?thesis
    by (simp add: init_distances_def node_ids_def)
qed

lemma init_previous_apply:
  "init_previous nodes k = (if k \<in> node_ids nodes then Some None else None)"
proof -
  have "foldl (\<lambda>p n. p(node_id n \<mapsto> None)) p0 ns k =
        (if k \<in> node_id ` set ns then Some None else p0 k)" for p0 :: prevmap and ns :: "Node list"
    by (induction ns arbitrary: p0) auto
  then show ?thesis
    by (simp add: init_previous_def node_ids_def)
qed

section \<open>BGP: the routing table\<close>




lemma with_attributes_empty: "with_attributes rnd k edges ps = [] \<longleftrightarrow> ps = []"
  by (cases ps) simp_all

lemma selectBestPath_Some: "xs \<noteq> [] \<Longrightarrow> \<exists>b. selectBestPath xs = Some b \<and> b \<in> set xs"
  using select_characterised [of xs] by blast








text \<open>
  Claim C2 (the code departs from it). On the line A - B - C with source A and destination
  C, node B has a path from the source, and the routing table of the BGP engine holds
  the row of C only: the candidate paths all end at the destination of the query, so no
  other node ever gets a row.
\<close>

theorem bgp_table_misses_intermediate_node:
  "findAllPaths threeNodes lineEdges ''A'' ''B'' = [[''A'', ''B'']]
   \<and> map destination (routingTable (bgp_execute zeroDraws threeNodes lineEdges ''A'' ''C'')) = [''C'']"
  by code_simp





section \<open>Both path-cost engines are sequences of relaxation steps\<close>

lemma js_add_defined: "js_add (Some x) w \<noteq> None"
  by (cases x) simp_all

lemma js_lt_defined: "js_lt x y \<Longrightarrow> x \<noteq> None \<and> y \<noteq> None \<and> x \<noteq> Some Infinity \<and> y \<noteq> Some NegInfinity"
proof (cases x)
  case None
  assume "js_lt x y"
  with None show ?thesis by simp
next
  case (Some u)
  assume l: "js_lt x y"
  show ?thesis
  proof (cases y)
    case None
    with l Some show ?thesis by (cases u) simp_all
  next
    case y: (Some v)
    with l Some show ?thesis by (cases u; cases v) simp_all
  qed
qed

lemma js_add_not_None: "js_add x w \<noteq> None \<longleftrightarrow> x \<noteq> None"
  by (cases x) (simp_all add: js_add_defined)

lemma relaxable_defined:
  "relaxable d f t w \<Longrightarrow> (\<exists>x. d f = Some x \<and> x \<noteq> Infinity) \<and> d t \<noteq> None \<and> js_add (d f) w \<noteq> None"
  using js_lt_defined [of "js_add (d f) w" "d t"]
  by (cases "d f") (auto simp: relaxable_def js_add_defined)

lemma js_lt_add_relaxable: "js_lt (js_add (d f) w) (d t) \<longleftrightarrow> relaxable d f t w"
proof (cases "d f")
  case None
  then show ?thesis by (simp add: relaxable_def)
next
  case (Some x)
  then show ?thesis by (cases x) (simp_all add: relaxable_def)
qed


subsection \<open>Bellman-Ford is a sequence of relaxation steps\<close>

lemma relax_dir_step:
  "relax_dir w (d, p, u) (f, t) =
     (fst (relax_step (d, p) f t w), snd (relax_step (d, p) f t w), u \<or> relaxable d f t w)"
  by (simp add: relax_dir_def relax_step_def)

lemma relax_edge_invariant:
  assumes step: "\<And>dp f t w. I dp \<Longrightarrow> joined edges f t w \<Longrightarrow> I (relax_step dp f t w)"
    and e: "e \<in> set edges" and i: "I (fst st, fst (snd st))"
  shows "I (fst (relax_edge st e), fst (snd (relax_edge st e)))"
proof -
  obtain d p u where st: "st = (d, p, u)" by (cases st) auto
  have j1: "joined edges (source e) (target e) (weight e)"
    and j2: "joined edges (target e) (source e) (weight e)"
    using e by (auto simp: joined_def)
  let ?dp1 = "relax_step (d, p) (source e) (target e) (weight e)"
  have i1: "I ?dp1" using step [OF _ j1] i st by simp
  have i2: "I (relax_step ?dp1 (target e) (source e) (weight e))"
    by (rule step [OF i1 j2])
  obtain d1 p1 where dp1: "?dp1 = (d1, p1)" by (cases ?dp1) auto
  show ?thesis
    using i2 by (simp add: st relax_edge_def directions_def relax_dir_step dp1)
qed

lemma foldl_relax_edge_invariant:
  assumes step: "\<And>dp f t w. I dp \<Longrightarrow> joined edges f t w \<Longrightarrow> I (relax_step dp f t w)"
    and es: "set es \<subseteq> set edges" and i: "I (fst st, fst (snd st))"
  shows "I (fst (foldl relax_edge st es), fst (snd (foldl relax_edge st es)))"
  using es i
proof (induction es arbitrary: st)
  case Nil
  then show ?case by simp
next
  case (Cons e es)
  from Cons.prems have "e \<in> set edges" by simp
  from relax_edge_invariant [of I edges, OF step this Cons.prems(2)] Cons.IH [of "relax_edge st e"] Cons.prems(1)
  show ?case by simp
qed

lemma relax_pass_invariant:
  assumes step: "\<And>dp f t w. I dp \<Longrightarrow> joined edges f t w \<Longrightarrow> I (relax_step dp f t w)"
    and i: "I (d, p)"
  shows "I (fst (relax_pass edges (d, p)), fst (snd (relax_pass edges (d, p))))"
  using foldl_relax_edge_invariant [of I edges edges "(d, p, False)", OF step] i
  by (simp add: relax_pass_def)

lemma bf_passes_invariant:
  assumes step: "\<And>dp f t w. I dp \<Longrightarrow> joined edges f t w \<Longrightarrow> I (relax_step dp f t w)"
    and i: "I (fst st, fst (snd st))"
  shows "I (fst (bf_passes k edges st), fst (snd (bf_passes k edges st)))"
  using i
proof (induction k arbitrary: st)
  case 0
  then show ?case by simp
next
  case (Suc k)
  obtain d p its where st: "st = (d, p, its)" by (cases st) auto
  obtain d1 p1 u where rp: "relax_pass edges (d, p) = (d1, p1, u)"
    by (cases "relax_pass edges (d, p)") auto
  from relax_pass_invariant [of I edges d p, OF step] Suc.prems st rp
  have i1: "I (d1, p1)" by simp
  show ?case
  proof (cases u)
    case False
    with i1 show ?thesis by (simp add: st rp)
  next
    case True
    with Suc.IH [of "(d1, p1, Suc its)"] i1 show ?thesis by (simp add: st rp)
  qed
qed

lemma bf_distances_invariant:
  assumes step: "\<And>dp f t w. I dp \<Longrightarrow> joined edges f t w \<Longrightarrow> I (relax_step dp f t w)"
    and i: "I (init_distances nodes src, init_previous nodes)"
  shows "I (fst (bf_distances nodes edges src), fst (snd (bf_distances nodes edges src)))"
  using bf_passes_invariant [of I edges "(init_distances nodes src, init_previous nodes, 0)", OF step] i
  by (simp add: bf_distances_def)

subsection \<open>The adjacency structure of Dijkstra\<close>

lemma init_graph_apply: "init_graph nodes k = (if k \<in> node_ids nodes then Some [] else None)"
proof -
  have "foldl (\<lambda>g n. g(node_id n \<mapsto> [])) g0 ns k =
        (if k \<in> node_id ` set ns then Some [] else g0 k)" for g0 :: graph and ns :: "Node list"
    by (induction ns arbitrary: g0) auto
  then show ?thesis
    by (simp add: init_graph_def node_ids_def)
qed

lemma adjw_init: "adjw (init_graph nodes) v n = None"
  by (simp add: adjw_def init_graph_apply)

lemma set_adj_Inr:
  "set_adj g a b w = Inr g' \<longleftrightarrow> a \<in> dom g \<and> g' = g(a \<mapsto> AList.update b w (the (g a)))"
  by (auto simp: set_adj_def split: option.splits)

lemma adjw_set_adj:
  assumes "set_adj g a b w = Inr g'"
  shows "adjw g' v n = (if v = a \<and> n = b then Some w else adjw g v n)"
  using assms by (auto simp: set_adj_Inr adjw_def update_conv' split: option.splits)

lemma build_graph_props:
  assumes "build_graph g es = Inr g'"
  shows "dom g' = dom g
    \<and> (\<forall>v n w. adjw g' v n = Some w \<longrightarrow> adjw g v n = Some w \<or> joined es v n w)
    \<and> (\<forall>v n. (adjw g v n \<noteq> None \<or> (\<exists>w. joined es v n w)) \<longrightarrow> adjw g' v n \<noteq> None)"
  using assms
proof (induction es arbitrary: g)
  case Nil
  then show ?case by (simp add: joined_def)
next
  case (Cons e es)
  from Cons.prems obtain g1 g2 where g1: "set_adj g (source e) (target e) (weight e) = Inr g1"
    and g2: "set_adj g1 (target e) (source e) (weight e) = Inr g2"
    and r: "build_graph g2 es = Inr g'"
    by (auto split: sum.splits)
  note a1 = adjw_set_adj [OF g1] and a2 = adjw_set_adj [OF g2]
  from g1 g2 have d2: "dom g2 = dom g"
    by (auto simp: set_adj_Inr)
  have j: "joined (e # es) v n w \<longleftrightarrow>
      (weight e = w \<and> ((source e = v \<and> target e = n) \<or> (target e = v \<and> source e = n))) \<or> joined es v n w"
    for v n w
    by (auto simp: joined_def)
  from Cons.IH [OF r]
  have i1: "dom g' = dom g2"
    and i2: "\<And>v n w. adjw g' v n = Some w \<Longrightarrow> adjw g2 v n = Some w \<or> joined es v n w"
    and i3: "\<And>v n. adjw g2 v n \<noteq> None \<or> (\<exists>w. joined es v n w) \<Longrightarrow> adjw g' v n \<noteq> None"
    by blast+
  show ?case
  proof (intro conjI allI impI)
    show "dom g' = dom g" using i1 d2 by simp
  next
    fix v n w
    assume "adjw g' v n = Some w"
    from i2 [OF this] show "adjw g v n = Some w \<or> joined (e # es) v n w"
      unfolding j a2 a1 by (auto split: if_splits)
  next
    fix v n
    assume "adjw g v n \<noteq> None \<or> (\<exists>w. joined (e # es) v n w)"
    then have "adjw g2 v n \<noteq> None \<or> (\<exists>w. joined es v n w)"
      unfolding j a2 a1 by auto
    then show "adjw g' v n \<noteq> None" by (rule i3)
  qed
qed

lemma build_graph_returns:
  assumes "\<forall>e\<in>set es. source e \<in> dom g \<and> target e \<in> dom g"
  shows "\<exists>g'. build_graph g es = Inr g'"
  using assms
proof (induction es arbitrary: g)
  case Nil
  show ?case by simp
next
  case (Cons e es)
  from Cons.prems obtain g1 where g1: "set_adj g (source e) (target e) (weight e) = Inr g1"
    by (auto simp: set_adj_Inr)
  then have d1: "dom g1 = dom g" by (auto simp: set_adj_Inr)
  with Cons.prems obtain g2 where g2: "set_adj g1 (target e) (source e) (weight e) = Inr g2"
    by (auto simp: set_adj_Inr)
  then have "dom g2 = dom g" using d1 by (auto simp: set_adj_Inr)
  with Cons.prems have "\<forall>e\<in>set es. source e \<in> dom g2 \<and> target e \<in> dom g2" by simp
  from Cons.IH [OF this] g1 g2 show ?case by simp
qed

lemma build_graph_TypeError:
  "build_graph g es = Inl err \<Longrightarrow> err = TypeError \<and> \<not> (\<forall>e\<in>set es. source e \<in> dom g \<and> target e \<in> dom g)"
proof (induction es arbitrary: g)
  case Nil
  then show ?case by simp
next
  case (Cons e es)
  show ?case
  proof (cases "set_adj g (source e) (target e) (weight e)")
    case (Inl x)
    with Cons.prems show ?thesis by (auto simp: set_adj_def split: option.splits)
  next
    case (Inr g1)
    note g1 = this
    then have d1: "dom g1 = dom g" by (auto simp: set_adj_Inr)
    show ?thesis
    proof (cases "set_adj g1 (target e) (source e) (weight e)")
      case (Inl x)
      with Cons.prems g1 d1 show ?thesis by (auto simp: set_adj_def split: option.splits)
    next
      case (Inr g2)
      then have "dom g2 = dom g" using d1 by (auto simp: set_adj_Inr)
      with Cons.IH [of g2] Cons.prems g1 Inr show ?thesis by simp
    qed
  qed
qed

lemma set_object_keys: "set (object_keys adj) = fst ` set adj"
  by (auto simp: object_keys_def Let_def)

lemma map_of_object_keys: "n \<in> set (object_keys adj) \<longleftrightarrow> map_of adj n \<noteq> None"
  by (simp add: set_object_keys map_of_eq_None_iff)

subsection \<open>Dijkstra is a sequence of relaxation steps\<close>

lemma relax_neighbor_step:
  "relax_neighbor adj c visited dp n =
     (if n \<notin> visited then
        (case map_of adj n of None \<Rightarrow> dp | Some w \<Rightarrow> relax_step dp c n w)
      else dp)"
  by (cases dp) (auto simp: relax_neighbor_def relax_step_def Let_def js_lt_add_relaxable split: option.splits)

lemma update_neighbors_invariant:
  assumes step: "\<And>dp f t w. I dp \<Longrightarrow> joined edges f t w \<Longrightarrow> I (relax_step dp f t w)"
    and g: "\<And>v n w. adjw g v n = Some w \<Longrightarrow> joined edges v n w"
    and i: "I dp"
  shows "I (update_neighbors g c visited dp)"
proof (cases "g c")
  case None
  with i show ?thesis by (simp add: update_neighbors_def)
next
  case (Some adj)
  have "I (foldl (relax_neighbor adj c visited) dp ks)" for ks
    using i
  proof (induction ks arbitrary: dp)
    case Nil
    then show ?case by simp
  next
    case (Cons k ks)
    have "I (relax_neighbor adj c visited dp k)"
    proof (cases "k \<notin> visited \<and> map_of adj k \<noteq> None")
      case False
      with Cons.prems show ?thesis by (auto simp: relax_neighbor_step)
    next
      case True
      then obtain w where w: "map_of adj k = Some w" by auto
      with Some have "adjw g c k = Some w" by (simp add: adjw_def)
      from step [OF Cons.prems g [OF this]] True w show ?thesis
        by (simp add: relax_neighbor_step)
    qed
    from Cons.IH [OF this] show ?case by simp
  qed
  with Some show ?thesis by (simp add: update_neighbors_def)
qed

lemma dijkstra_loop_unfold:
  "dijkstra_loop g dest (d, p, visited, unvisited, its) =
     (if unvisited = [] then (d, p, its)
      else if d (min_node d unvisited) = Some Infinity then (d, p, Suc its)
      else if min_node d unvisited = dest
        then (fst (update_neighbors g (min_node d unvisited) visited (d, p)),
              snd (update_neighbors g (min_node d unvisited) visited (d, p)), Suc its)
      else dijkstra_loop g dest
             (fst (update_neighbors g (min_node d unvisited) visited (d, p)),
              snd (update_neighbors g (min_node d unvisited) visited (d, p)),
              insert (min_node d unvisited) visited,
              removeAll (min_node d unvisited) unvisited, Suc its))"
  by (subst dijkstra_loop.simps) (simp add: Let_def split: prod.splits)

lemma dijkstra_loop_invariant:
  assumes step: "\<And>dp f t w. I dp \<Longrightarrow> joined edges f t w \<Longrightarrow> I (relax_step dp f t w)"
    and g: "\<forall>v n w. adjw g v n = Some w \<longrightarrow> joined edges v n w"
    and i: "I (fst st, fst (snd st))"
  shows "I (fst (dijkstra_loop g dest st), fst (snd (dijkstra_loop g dest st)))"
  using g i
proof (induction g dest st rule: dijkstra_loop.induct)
  case (1 g dest d p visited unvisited its)
  let ?c = "min_node d unvisited"
  let ?u = "update_neighbors g ?c visited (d, p)"
  have i1: "I ?u"
    using update_neighbors_invariant [of I edges g "(d, p)" ?c visited] step "1.prems" by auto
  show ?case
  proof (cases "unvisited = [] \<or> d ?c = Some Infinity")
    case True
    then have "dijkstra_loop g dest (d, p, visited, unvisited, its) = (d, p, its)
        \<or> dijkstra_loop g dest (d, p, visited, unvisited, its) = (d, p, Suc its)"
      by (subst dijkstra_loop_unfold, subst (2) dijkstra_loop_unfold) auto
    with "1.prems" show ?thesis
      by auto
  next
    case False
    show ?thesis
    proof (cases "?c = dest")
      case True
      with False have "dijkstra_loop g dest (d, p, visited, unvisited, its) = (fst ?u, snd ?u, Suc its)"
        by (subst dijkstra_loop_unfold) simp
      with i1 show ?thesis
        by simp
    next
      case nd: False
      have "I (fst (dijkstra_loop g dest (fst ?u, snd ?u, insert ?c visited, removeAll ?c unvisited, Suc its)),
               fst (snd (dijkstra_loop g dest (fst ?u, snd ?u, insert ?c visited, removeAll ?c unvisited, Suc its))))"
        using "1.IH" [of ?c "fst ?u" "snd ?u"] False nd "1.prems"(1) i1 by simp
      moreover from False nd
      have "dijkstra_loop g dest (d, p, visited, unvisited, its) =
            dijkstra_loop g dest (fst ?u, snd ?u, insert ?c visited, removeAll ?c unvisited, Suc its)"
        by (subst dijkstra_loop_unfold) simp
      ultimately show ?thesis
        by simp
    qed
  qed
qed

lemma dijkstra_execute_cases:
  "dijkstra_execute nodes edges src dest = Some (Inr r) \<longleftrightarrow>
     (\<exists>g. build_graph (init_graph nodes) edges = Inr g
        \<and> assemble nodes src dest
             (fst (dijkstra_loop g dest
                (init_distances nodes src, init_previous nodes, {}, new_Set (map node_id nodes), 0)))
             (fst (snd (dijkstra_loop g dest
                (init_distances nodes src, init_previous nodes, {}, new_Set (map node_id nodes), 0))))
             (snd (snd (dijkstra_loop g dest
                (init_distances nodes src, init_previous nodes, {}, new_Set (map node_id nodes), 0))))
           = Some r)"
  by (auto simp: dijkstra_execute_def split: sum.splits prod.splits)

lemma assemble_maps:
  "assemble nodes src dest d p its = Some r \<Longrightarrow> distances r = d \<and> previous r = p \<and> iterations r = its"
  by (auto simp: assemble_def split: option.splits)

lemma build_graph_joined:
  assumes "build_graph (init_graph nodes) edges = Inr g"
  shows "\<forall>v n w. adjw g v n = Some w \<longrightarrow> joined edges v n w"
  using build_graph_props [OF assms] by (auto simp: adjw_init)


section \<open>The maps stay confined to the nodes that the source reaches\<close>

lemma joined_reachable:
  assumes "reachable nodes edges src u" and "joined edges u v w" and "v \<in> node_ids nodes"
  shows "reachable nodes edges src v"
proof -
  from assms(2) obtain e where e: "e \<in> set edges"
    and j: "(source e = u \<and> target e = v) \<or> (target e = u \<and> source e = v)"
    by (auto simp: joined_def)
  from j show ?thesis
  proof
    assume "source e = u \<and> target e = v"
    with reach_forward [OF assms(1) e] assms(3) show ?thesis by auto
  next
    assume "target e = u \<and> source e = v"
    with reach_backward [OF assms(1) e] assms(3) show ?thesis by auto
  qed
qed

lemma reachable_node: "reachable nodes edges src v \<Longrightarrow> v \<in> node_ids nodes"
  by (induction rule: reachable.induct) auto

lemma confined_init: "confined nodes edges src (init_distances nodes src, init_previous nodes)"
  unfolding confined_def
  by (auto simp: init_distances_apply init_previous_apply dom_def intro: reach_source split: if_splits)

lemma relaxable_reachable:
  assumes c: "confined nodes edges src dp" and j: "joined edges f t w"
    and r: "relaxable (fst dp) f t w"
  shows "reachable nodes edges src f \<and> reachable nodes edges src t"
proof -
  from relaxable_defined [OF r] obtain x where x: "fst dp f = Some x" "x \<noteq> Infinity"
    and t: "fst dp t \<noteq> None" by blast
  from c x(1) t have fn: "f \<in> node_ids nodes" and tn: "t \<in> node_ids nodes"
    by (auto simp: confined_def)
  from c fn x have rf: "reachable nodes edges src f"
    by (auto simp: confined_def)
  from joined_reachable [OF rf j tn] rf show ?thesis by simp
qed

lemma confined_relax_step:
  assumes c: "confined nodes edges src dp" and j: "joined edges f t w"
  shows "confined nodes edges src (relax_step dp f t w)"
proof (cases "relaxable (fst dp) f t w")
  case False
  with c show ?thesis by (simp add: relax_step_def)
next
  case True
  from relaxable_reachable [OF c j True] have rt: "reachable nodes edges src t" by simp
  then have tn: "t \<in> node_ids nodes" by (rule reachable_node)
  from relaxable_defined [OF True] obtain y where y: "js_add (fst dp f) w = Some y" by auto
  have r: "relax_step dp f t w = ((fst dp)(t \<mapsto> y), (snd dp)(t \<mapsto> Some f))"
    using True y by (simp add: relax_step_def)
  from c have dd: "dom (fst dp) = node_ids nodes" and dpp: "dom (snd dp) = node_ids nodes"
    and u: "\<And>v. v \<in> node_ids nodes \<Longrightarrow> \<not> reachable nodes edges src v \<Longrightarrow>
              fst dp v = Some Infinity \<and> snd dp v = Some None"
    by (auto simp: confined_def)
  show ?thesis
    unfolding r confined_def
  proof (intro conjI ballI impI)
    show "dom (fst ((fst dp)(t \<mapsto> y), (snd dp)(t \<mapsto> Some f))) = node_ids nodes"
      using dd tn by auto
    show "dom (snd ((fst dp)(t \<mapsto> y), (snd dp)(t \<mapsto> Some f))) = node_ids nodes"
      using dpp tn by auto
  next
    fix v
    assume v: "v \<in> node_ids nodes" "\<not> reachable nodes edges src v"
    with rt have "v \<noteq> t" by auto
    with u [OF v] show "fst ((fst dp)(t \<mapsto> y), (snd dp)(t \<mapsto> Some f)) v = Some Infinity" by simp
    from \<open>v \<noteq> t\<close> u [OF v] show "snd ((fst dp)(t \<mapsto> y), (snd dp)(t \<mapsto> Some f)) v = Some None" by simp
  qed
qed

lemma bf_distances_confined:
  "confined nodes edges src (fst (bf_distances nodes edges src), fst (snd (bf_distances nodes edges src)))"
  by (rule bf_distances_invariant [of "confined nodes edges src" edges, OF confined_relax_step confined_init])

lemma dijkstra_result_confined:
  assumes "dijkstra_execute nodes edges src dest = Some (Inr r)"
  shows "confined nodes edges src (distances r, previous r)"
proof -
  let ?init = "(init_distances nodes src, init_previous nodes, {}, new_Set (map node_id nodes), 0::nat)"
  from assms obtain g where g: "build_graph (init_graph nodes) edges = Inr g"
    and a: "assemble nodes src dest (fst (dijkstra_loop g dest ?init))
             (fst (snd (dijkstra_loop g dest ?init))) (snd (snd (dijkstra_loop g dest ?init))) = Some r"
    unfolding dijkstra_execute_cases by blast
  have "confined nodes edges src (fst (dijkstra_loop g dest ?init), fst (snd (dijkstra_loop g dest ?init)))"
    using dijkstra_loop_invariant [of "confined nodes edges src" edges g ?init dest,
        OF confined_relax_step build_graph_joined [OF g]] confined_init [of nodes edges src]
    by simp
  with assemble_maps [OF a] show ?thesis by simp
qed

lemma bf_result_confined:
  assumes "bf_execute nodes edges src dest = Some (Inr r)"
  shows "confined nodes edges src (distances r, previous r)"
  using bf_execute_result [OF assms] bf_distances_confined [of nodes edges src] by simp

lemma confined_covers:
  assumes "confined nodes edges src (d, p)" and "n \<in> node_ids nodes"
  shows "d n \<noteq> None \<and> p n \<noteq> None \<and> (\<not> reachable nodes edges src n \<longrightarrow> d n = Some Infinity)"
  using assms by (auto simp: confined_def)


subsection \<open>The maps of the BGP result\<close>

lemma seed_path_other:
  "k \<notin> set rest \<Longrightarrow>
     fst (seed_path w whole i rest (d, p)) k = d k \<and> snd (seed_path w whole i rest (d, p)) k = p k"
  by (induction rest arbitrary: i d p) auto

lemma seed_path_dom:
  "(k \<in> dom d \<longrightarrow> k \<in> dom (fst (seed_path w whole i rest (d, p))))
   \<and> (k \<in> dom p \<longrightarrow> k \<in> dom (snd (seed_path w whole i rest (d, p))))"
  by (induction rest arbitrary: i d p) auto

lemma all_infinity_apply:
  "foldl (\<lambda>d n. d(node_id n \<mapsto> Infinity)) Map.empty nodes k
     = (if k \<in> node_ids nodes then Some Infinity else None)"
proof -
  have "foldl (\<lambda>d n. d(node_id n \<mapsto> Infinity)) d0 ns k =
        (if k \<in> node_id ` set ns then Some Infinity else d0 k)" for d0 :: distmap and ns :: "Node list"
    by (induction ns arbitrary: d0) auto
  then show ?thesis
    by (simp add: node_ids_def)
qed

lemma bgp_maps:
  assumes ne: "findAllPaths nodes edges src dest \<noteq> []" and n: "n \<in> node_ids nodes"
  shows "distances (bgp_execute rnd nodes edges src dest) n \<noteq> None
    \<and> previous (bgp_execute rnd nodes edges src dest) n \<noteq> None
    \<and> (n \<notin> set (path (bgp_execute rnd nodes edges src dest)) \<longrightarrow>
         distances (bgp_execute rnd nodes edges src dest) n = Some Infinity
         \<and> previous (bgp_execute rnd nodes edges src dest) n = Some None)"
proof -
  let ?all = "findAllPaths nodes edges src dest"
  let ?d0 = "foldl (\<lambda>d n. d(node_id n \<mapsto> Infinity)) Map.empty nodes"
  let ?p0 = "init_previous nodes"
  from ne have "with_attributes rnd 0 edges ?all \<noteq> []"
    by (simp add: with_attributes_empty)
  from selectBestPath_Some [OF this] obtain b
    where b: "selectBestPath (with_attributes rnd 0 edges ?all) = Some b" by blast
  let ?dp = "seed_path (bgp_weight b) (bgp_path b) 0 (bgp_path b) (?d0, ?p0)"
  have r: "distances (bgp_execute rnd nodes edges src dest) = fst ?dp"
    "previous (bgp_execute rnd nodes edges src dest) = snd ?dp"
    "path (bgp_execute rnd nodes edges src dest) = bgp_path b"
    using ne b by (simp_all add: bgp_execute_def Let_def)
  have d0: "?d0 n = Some Infinity" and p0: "?p0 n = Some None"
    using n by (simp_all add: all_infinity_apply init_previous_apply)
  from seed_path_dom [of n ?d0 "bgp_weight b" "bgp_path b" 0 "bgp_path b" ?p0] d0 p0
  have "fst ?dp n \<noteq> None" and "snd ?dp n \<noteq> None"
    by (auto simp: dom_def)
  moreover from seed_path_other [of n "bgp_path b" "bgp_weight b" "bgp_path b" 0 ?d0 ?p0] d0 p0
  have "n \<notin> set (bgp_path b) \<longrightarrow> fst ?dp n = Some Infinity \<and> snd ?dp n = Some None"
    by simp
  ultimately show ?thesis
    unfolding r by blast
qed

lemma bgp_maps_empty:
  assumes "findAllPaths nodes edges src dest = []"
  shows "distances (bgp_execute rnd nodes edges src dest) = Map.empty
    \<and> previous (bgp_execute rnd nodes edges src dest) = Map.empty"
  using assms by (simp add: bgp_execute_def Let_def)

section \<open>The maps of a result cover the node list\<close>

lemma oneLink_reachable: "reachable threeNodes oneLink ''A'' v \<Longrightarrow> v = ''A'' \<or> v = ''B''"
  by (induction rule: reachable.induct) (auto simp: oneLink_def)

text \<open>
  Claim C7, as stated, fails for the BGP engine when no path joins source and
  destination: it returns empty maps, with no entry for node A of the list.
\<close>

theorem bgp_no_path_empty_maps:
  "''A'' \<in> node_ids threeNodes
   \<and> distances (bgp_execute zeroDraws threeNodes oneLink ''A'' ''C'') ''A'' = None
   \<and> previous (bgp_execute zeroDraws threeNodes oneLink ''A'' ''C'') ''A'' = None"
proof -
  have "''A'' \<in> node_ids threeNodes"
    by (simp add: node_ids_def threeNodes_def)
  moreover have "distances (bgp_execute zeroDraws threeNodes oneLink ''A'' ''C'') ''A'' = None
    \<and> previous (bgp_execute zeroDraws threeNodes oneLink ''A'' ''C'') ''A'' = None"
    by code_simp
  ultimately show ?thesis by simp
qed

text \<open>
  Claim C7, amended. Let no node be called \<open>__proto__\<close>. Whenever the BGP engine finds at
  least one candidate path, and, when moreover no edge endpoint outside the node list is
  the name of an inherited object property, whenever Dijkstra or Bellman-Ford returns a
  result, the distances map and the previous map of the result have an entry for every
  node of the list; the distance is \<open>Infinity\<close> for every node that is not reachable from
  the source (for BGP: for every node that is not on the winning path, whose predecessor
  entry is then \<open>null\<close>). When the BGP engine finds no path from source to destination,
  both maps are empty.
\<close>

theorem maps_cover_nodes:
  "(plain_keys nodes edges \<longrightarrow>
      (\<forall>r. dijkstra_execute nodes edges src dest = Some (Inr r) \<longrightarrow>
        (\<forall>n\<in>node_ids nodes. distances r n \<noteq> None \<and> previous r n \<noteq> None
            \<and> (\<not> reachable nodes edges src n \<longrightarrow> distances r n = Some Infinity))))
   \<and> (plain_keys nodes edges \<longrightarrow>
      (\<forall>r. bf_execute nodes edges src dest = Some (Inr r) \<longrightarrow>
        (\<forall>n\<in>node_ids nodes. distances r n \<noteq> None \<and> previous r n \<noteq> None
            \<and> (\<not> reachable nodes edges src n \<longrightarrow> distances r n = Some Infinity))))
   \<and> (''__proto__'' \<notin> node_ids nodes \<and> findAllPaths nodes edges src dest \<noteq> [] \<longrightarrow>
      (\<forall>n\<in>node_ids nodes.
          distances (bgp_execute rnd nodes edges src dest) n \<noteq> None
          \<and> previous (bgp_execute rnd nodes edges src dest) n \<noteq> None
          \<and> (n \<notin> set (path (bgp_execute rnd nodes edges src dest)) \<longrightarrow>
                distances (bgp_execute rnd nodes edges src dest) n = Some Infinity
                \<and> previous (bgp_execute rnd nodes edges src dest) n = Some None)))
   \<and> (findAllPaths nodes edges src dest = [] \<longrightarrow>
        distances (bgp_execute rnd nodes edges src dest) = Map.empty
        \<and> previous (bgp_execute rnd nodes edges src dest) = Map.empty)"
proof -
  have a: "plain_keys nodes edges \<longrightarrow>
      (\<forall>r. dijkstra_execute nodes edges src dest = Some (Inr r) \<longrightarrow>
        (\<forall>n\<in>node_ids nodes. distances r n \<noteq> None \<and> previous r n \<noteq> None
            \<and> (\<not> reachable nodes edges src n \<longrightarrow> distances r n = Some Infinity)))"
  proof (intro allI impI ballI)
    fix r n
    assume "dijkstra_execute nodes edges src dest = Some (Inr r)" and n: "n \<in> node_ids nodes"
    from confined_covers [OF dijkstra_result_confined [OF this(1)] n]
    show "distances r n \<noteq> None \<and> previous r n \<noteq> None
          \<and> (\<not> reachable nodes edges src n \<longrightarrow> distances r n = Some Infinity)" .
  qed
  have b: "plain_keys nodes edges \<longrightarrow>
      (\<forall>r. bf_execute nodes edges src dest = Some (Inr r) \<longrightarrow>
        (\<forall>n\<in>node_ids nodes. distances r n \<noteq> None \<and> previous r n \<noteq> None
            \<and> (\<not> reachable nodes edges src n \<longrightarrow> distances r n = Some Infinity)))"
  proof (intro allI impI ballI)
    fix r n
    assume "bf_execute nodes edges src dest = Some (Inr r)" and n: "n \<in> node_ids nodes"
    from confined_covers [OF bf_result_confined [OF this(1)] n]
    show "distances r n \<noteq> None \<and> previous r n \<noteq> None
          \<and> (\<not> reachable nodes edges src n \<longrightarrow> distances r n = Some Infinity)" .
  qed
  have c: "''__proto__'' \<notin> node_ids nodes \<and> findAllPaths nodes edges src dest \<noteq> [] \<longrightarrow>
      (\<forall>n\<in>node_ids nodes.
          distances (bgp_execute rnd nodes edges src dest) n \<noteq> None
          \<and> previous (bgp_execute rnd nodes edges src dest) n \<noteq> None
          \<and> (n \<notin> set (path (bgp_execute rnd nodes edges src dest)) \<longrightarrow>
                distances (bgp_execute rnd nodes edges src dest) n = Some Infinity
                \<and> previous (bgp_execute rnd nodes edges src dest) n = Some None))"
  proof (intro impI ballI)
    fix n
    assume "''__proto__'' \<notin> node_ids nodes \<and> findAllPaths nodes edges src dest \<noteq> []"
      and n: "n \<in> node_ids nodes"
    then have "findAllPaths nodes edges src dest \<noteq> []" by simp
    from bgp_maps [OF this n]
    show "distances (bgp_execute rnd nodes edges src dest) n \<noteq> None
          \<and> previous (bgp_execute rnd nodes edges src dest) n \<noteq> None
          \<and> (n \<notin> set (path (bgp_execute rnd nodes edges src dest)) \<longrightarrow>
                distances (bgp_execute rnd nodes edges src dest) n = Some Infinity
                \<and> previous (bgp_execute rnd nodes edges src dest) n = Some None)" .
  qed
  have d: "findAllPaths nodes edges src dest = [] \<longrightarrow>
        distances (bgp_execute rnd nodes edges src dest) = Map.empty
        \<and> previous (bgp_execute rnd nodes edges src dest) = Map.empty"
    by (rule impI) (rule bgp_maps_empty)
  show ?thesis
    by (rule conjI [OF a conjI [OF b conjI [OF c d]]])
qed

lemma threeNodes_ids: "node_ids threeNodes = {''A'', ''B'', ''C''}"
  by (auto simp: node_ids_def threeNodes_def)

lemma plain_keys_oneLink: "plain_keys threeNodes oneLink"
  by (simp add: plain_keys_def threeNodes_ids oneLink_def)

theorem maps_cover_nodes_witness:
  "plain_keys threeNodes oneLink
   \<and> (\<exists>r. dijkstra_execute threeNodes oneLink ''A'' ''C'' = Some (Inr r)
        \<and> distances r ''C'' = Some Infinity \<and> previous r ''C'' \<noteq> None)
   \<and> (\<exists>r. bf_execute threeNodes oneLink ''A'' ''C'' = Some (Inr r)
        \<and> distances r ''C'' = Some Infinity \<and> previous r ''C'' \<noteq> None)
   \<and> distances (bgp_execute zeroDraws threeNodes triangleEdges ''A'' ''C'') ''B'' = Some Infinity
   \<and> distances (bgp_execute zeroDraws threeNodes oneLink ''A'' ''C'') = Map.empty"
proof -
  note t = maps_cover_nodes [of threeNodes oneLink "''A''" "''C''" zeroDraws]
  note t2 = maps_cover_nodes [of threeNodes triangleEdges "''A''" "''C''" zeroDraws]
  note pk = plain_keys_oneLink
  have c: "''C'' \<in> node_ids threeNodes" and b: "''B'' \<in> node_ids threeNodes"
    and np: "''__proto__'' \<notin> node_ids threeNodes"
    by (simp_all add: threeNodes_ids)
  have nr: "\<not> reachable threeNodes oneLink ''A'' ''C''"
    using oneLink_reachable [of "''C''"] by auto
  have "distance_and_path ''C'' (dijkstra_execute threeNodes oneLink ''A'' ''C'') = Some (Inr (Some Infinity, []))"
    by code_simp
  from distance_and_path_Inr [OF this]
  obtain r1 where r1: "dijkstra_execute threeNodes oneLink ''A'' ''C'' = Some (Inr r1)" by blast
  from t [THEN conjunct1, rule_format, OF pk r1 c] nr
  have d1: "distances r1 ''C'' = Some Infinity \<and> previous r1 ''C'' \<noteq> None" by simp
  have "distance_and_path ''C'' (bf_execute threeNodes oneLink ''A'' ''C'') = Some (Inr (Some Infinity, []))"
    by code_simp
  from distance_and_path_Inr [OF this]
  obtain r2 where r2: "bf_execute threeNodes oneLink ''A'' ''C'' = Some (Inr r2)" by blast
  from t [THEN conjunct2, THEN conjunct1, rule_format, OF pk r2 c] nr
  have d2: "distances r2 ''C'' = Some Infinity \<and> previous r2 ''C'' \<noteq> None" by simp
  have p: "findAllPaths threeNodes triangleEdges ''A'' ''C'' \<noteq> []"
    by code_simp
  have npth: "''B'' \<notin> set (path (bgp_execute zeroDraws threeNodes triangleEdges ''A'' ''C''))"
    by code_simp
  from t2 [THEN conjunct2, THEN conjunct2, THEN conjunct1, rule_format, OF conjI [OF np p] b] npth
  have d3: "distances (bgp_execute zeroDraws threeNodes triangleEdges ''A'' ''C'') ''B'' = Some Infinity"
    by simp
  have e: "findAllPaths threeNodes oneLink ''A'' ''C'' = []"
    by code_simp
  from t [THEN conjunct2, THEN conjunct2, THEN conjunct2, rule_format, OF e]
  have d4: "distances (bgp_execute zeroDraws threeNodes oneLink ''A'' ''C'') = Map.empty"
    by simp
  from pk r1 d1 r2 d2 d3 d4 show ?thesis by blast
qed


section \<open>Symmetry: reversing an edge\<close>

subsection \<open>Dijkstra\<close>

lemma set_adj_dom: "set_adj g a b w = Inr g' \<Longrightarrow> dom g' = dom g"
  by (auto simp: set_adj_def split: option.splits if_splits)

lemma reverse_edge_fields:
  "source (reverse_edge e) = target e" "target (reverse_edge e) = source e"
  "weight (reverse_edge e) = weight e"
  by (simp_all add: reverse_edge_def)

lemma build_graph_reverse_Cons: "build_graph g (reverse_edge e # es) = build_graph g (e # es)"
proof (cases "source e = target e")
  case True
  then show ?thesis by (simp add: reverse_edge_fields split: sum.splits)
next
  case False
  then show ?thesis
    by (auto simp: reverse_edge_fields set_adj_def fun_upd_twist split: option.splits)
qed

lemma build_graph_append:
  "build_graph g (xs @ ys) = (case build_graph g xs of Inl err \<Rightarrow> Inl err | Inr g' \<Rightarrow> build_graph g' ys)"
  by (induction xs arbitrary: g) (auto split: sum.splits)

lemma build_graph_reverse:
  "build_graph g (xs @ reverse_edge e # ys) = build_graph g (xs @ e # ys)"
  by (simp only: build_graph_append build_graph_reverse_Cons)

lemma dijkstra_execute_reverse:
  "dijkstra_execute nodes (xs @ reverse_edge e # ys) src dest = dijkstra_execute nodes (xs @ e # ys) src dest"
  by (simp only: dijkstra_execute_def build_graph_reverse)

subsection \<open>BGP\<close>

lemma neighbor_of_reverse: "neighbor_of (reverse_edge e) c = neighbor_of e c"
  by (auto simp: neighbor_of_def reverse_edge_fields)

lemma dfs_reverse:
  "dfs (xs @ reverse_edge e # ys) endNode maxDepth current pth visited depth
     = dfs (xs @ e # ys) endNode maxDepth current pth visited depth"
proof (induction "xs @ e # ys" endNode maxDepth current pth visited depth rule: dfs.induct)
  case (1 endNode maxDepth current pth visited depth)
  let ?F = "\<lambda>es edge. (case neighbor_of edge current of
                None \<Rightarrow> []
              | Some neighbor \<Rightarrow>
                  if neighbor \<noteq> [] \<and> neighbor \<notin> insert current visited
                  then dfs es endNode maxDepth neighbor (pth @ [current])
                         (insert current visited) (Suc depth)
                  else [])"
  show ?case
  proof (cases "depth > maxDepth \<or> current = endNode \<or> current \<in> visited")
    case True
    then show ?thesis
      by (subst dfs.simps, subst (2) dfs.simps) auto
  next
    case False
    have ih: "?F (xs @ reverse_edge e # ys) x = ?F (xs @ e # ys) x" if "x \<in> set (xs @ e # ys)" for x
    proof (cases "neighbor_of x current")
      case None
      then show ?thesis by simp
    next
      case (Some n)
      show ?thesis
      proof (cases "n \<noteq> [] \<and> n \<notin> insert current visited")
        case True
        with "1.hyps" [OF _ _ _ that Some] False Some show ?thesis by simp
      next
        case False
        with Some show ?thesis by auto
      qed
    qed
    have r: "?F (xs @ reverse_edge e # ys) (reverse_edge e) = ?F (xs @ e # ys) e"
      using ih [of e] by (simp add: neighbor_of_reverse)
    have "map (?F (xs @ reverse_edge e # ys)) (xs @ reverse_edge e # ys)
            = map (?F (xs @ e # ys)) (xs @ e # ys)"
      using ih r by simp
    then have "concat (map (?F (xs @ reverse_edge e # ys)) (xs @ reverse_edge e # ys))
            = concat (map (?F (xs @ e # ys)) (xs @ e # ys))"
      by (rule arg_cong)
    with False show ?thesis
      by (subst dfs.simps, subst (2) dfs.simps) simp
  qed
qed

lemma findAllPaths_reverse:
  "findAllPaths nodes (xs @ reverse_edge e # ys) src dest = findAllPaths nodes (xs @ e # ys) src dest"
  by (simp only: findAllPaths_def dfs_reverse)

lemma find_reverse:
  assumes "P (reverse_edge e) = P e"
  shows "map_option weight (find P (xs @ reverse_edge e # ys)) = map_option weight (find P (xs @ e # ys))"
  using assms by (induction xs) (auto simp: reverse_edge_fields)

lemma path_weight_from_reverse:
  "path_weight_from (xs @ reverse_edge e # ys) tw pth = path_weight_from (xs @ e # ys) tw pth"
proof (induction "xs @ e # ys" tw pth rule: path_weight_from.induct)
  case (1 tw a b rest)
  let ?P = "\<lambda>e. (source e = a \<and> target e = b) \<or> (target e = a \<and> source e = b)"
  have "?P (reverse_edge e) = ?P e"
    by (auto simp: reverse_edge_fields)
  from find_reverse [of ?P, OF this, of xs ys]
  have "(case find ?P (xs @ reverse_edge e # ys) of Some edge \<Rightarrow> tw + weight edge | None \<Rightarrow> tw)
      = (case find ?P (xs @ e # ys) of Some edge \<Rightarrow> tw + weight edge | None \<Rightarrow> tw)"
    by (cases "find ?P (xs @ reverse_edge e # ys)"; cases "find ?P (xs @ e # ys)") auto
  with "1.hyps" show ?case by simp
qed simp_all

lemma calculatePathWeight_reverse:
  "calculatePathWeight pth (xs @ reverse_edge e # ys) = calculatePathWeight pth (xs @ e # ys)"
  by (simp only: calculatePathWeight_def path_weight_from_reverse)

lemma with_attributes_reverse:
  "with_attributes rnd k (xs @ reverse_edge e # ys) ps = with_attributes rnd k (xs @ e # ys) ps"
  by (induction ps arbitrary: k) (simp_all add: calculatePathWeight_reverse)

lemma bgp_rows_reverse:
  "bgp_rows rnd k (xs @ reverse_edge e # ys) src allPaths ns = bgp_rows rnd k (xs @ e # ys) src allPaths ns"
  by (induction ns arbitrary: k) (auto simp add: with_attributes_reverse Let_def split: option.splits)

lemma bgp_execute_reverse:
  "bgp_execute rnd nodes (xs @ reverse_edge e # ys) src dest = bgp_execute rnd nodes (xs @ e # ys) src dest"
  by (simp only: bgp_execute_def findAllPaths_reverse with_attributes_reverse bgp_rows_reverse)
subsection \<open>Bellman-Ford\<close>

section \<open>Bellman-Ford on weights that a double absorbs\<close>

lemma walk_cycle:
  assumes "walk p c acc = Some l"
  shows "\<not> (p a = Some (Some b) \<and> p b = Some (Some a) \<and> (c = Some a \<or> c = Some b))"
  using assms
proof (induct rule: walk.raw_induct [rotated 1, consumes 1, case_names step])
  case (step walk' p c acc l)
  show ?case
  proof
    assume h: "p a = Some (Some b) \<and> p b = Some (Some a) \<and> (c = Some a \<or> c = Some b)"
    then have "c = Some a \<or> c = Some b" by simp
    then show False
    proof
      assume c: "c = Some a"
      with h step(2) have "walk' p (Some b) (a # acc) = Some l" by simp
      from step(1) [OF this] h show False by simp
    next
      assume c: "c = Some b"
      with h step(2) have "walk' p (Some a) (b # acc) = Some l" by simp
      from step(1) [OF this] h show False by simp
    qed
  qed
qed

lemma absorbing_reachable:
  "reachable threeNodes absorbingEdges ''A'' ''B'' \<and> reachable threeNodes absorbingEdges ''A'' ''C''"
proof -
  have a: "reachable threeNodes absorbingEdges ''A'' ''A''"
    by (rule reach_source) (simp add: node_ids_def threeNodes_def)
  have "reachable threeNodes absorbingEdges ''A''
          (target \<lparr>edge_id = ''A-B'', source = ''A'', target = ''B'', weight = 18014398509481984\<rparr>)"
    by (rule reach_forward [OF a]) (simp_all add: absorbingEdges_def node_ids_def threeNodes_def)
  then have b: "reachable threeNodes absorbingEdges ''A'' ''B''" by simp
  have "reachable threeNodes absorbingEdges ''A''
          (target \<lparr>edge_id = ''B-C'', source = ''B'', target = ''C'', weight = - 1\<rparr>)"
    by (rule reach_forward [OF b]) (simp_all add: absorbingEdges_def node_ids_def threeNodes_def)
  with b show ?thesis by simp
qed

text \<open>
  Claim C10 does not hold of the code. On the line A - B - C with the weights \<open>2^54\<close> and
  \<open>-1\<close>, the edge B - C has a negative weight and both its endpoints are reachable from
  A, yet Bellman-Ford returns a result: the path A, B, C with the distance \<open>2^54\<close> for C.
  The sum \<open>2^54 + (-1)\<close> is rounded back to \<open>2^54\<close>, so that neither direction of the edge
  can be relaxed a second time.
\<close>

theorem bf_returns_over_negative_edge:
  "\<lparr>edge_id = ''B-C'', source = ''B'', target = ''C'', weight = - 1\<rparr> \<in> set absorbingEdges
   \<and> reachable threeNodes absorbingEdges ''A'' ''B''
   \<and> reachable threeNodes absorbingEdges ''A'' ''C''
   \<and> distance_and_path ''C'' (bf_execute threeNodes absorbingEdges ''A'' ''C'')
       = Some (Inr (Some (Fin 18014398509481984), [''A'', ''B'', ''C'']))"
proof -
  have "\<lparr>edge_id = ''B-C'', source = ''B'', target = ''C'', weight = - 1\<rparr> \<in> set absorbingEdges"
    by (simp add: absorbingEdges_def)
  moreover have "distance_and_path ''C'' (bf_execute threeNodes absorbingEdges ''A'' ''C'')
       = Some (Inr (Some (Fin 18014398509481984), [''A'', ''B'', ''C'']))"
    by code_simp
  ultimately show ?thesis
    using absorbing_reachable by simp
qed

text \<open>
  Claim C9 does not hold of the code. On five nodes with the weights \<open>2^53 + 4\<close>, 2, \<open>-1\<close>,
  \<open>2^53\<close> and 4, Bellman-Ford returns the path A, E, D for the query from A to D when
  the link of weight \<open>-1\<close> is listed as B - D; when the same link is listed as D - B, the
  two passes leave D as the predecessor of B and B as the predecessor of D, no edge can
  be relaxed any more, and the walk along the predecessors never ends, so that there is
  no result.
\<close>

theorem bf_reversal_changes_outcome:
  "distance_and_path ''D'' (bf_execute fiveNodes (largeEdges (reverse_edge linkDB)) ''A'' ''D'')
       = Some (Inr (Some (Fin 9007199254740996), [''A'', ''E'', ''D'']))
   \<and> fst (snd (bf_distances fiveNodes (largeEdges linkDB) ''A'')) ''D'' = Some (Some ''B'')
   \<and> fst (snd (bf_distances fiveNodes (largeEdges linkDB) ''A'')) ''B'' = Some (Some ''D'')
   \<and> \<not> has_negative_cycle (fst (bf_distances fiveNodes (largeEdges linkDB) ''A'')) (largeEdges linkDB)
   \<and> bf_execute fiveNodes (largeEdges linkDB) ''A'' ''D'' = None"
proof -
  let ?p = "fst (snd (bf_distances fiveNodes (largeEdges linkDB) ''A''))"
  have r: "distance_and_path ''D'' (bf_execute fiveNodes (largeEdges (reverse_edge linkDB)) ''A'' ''D'')
       = Some (Inr (Some (Fin 9007199254740996), [''A'', ''E'', ''D'']))"
    by code_simp
  have d: "?p ''D'' = Some (Some ''B'')"
    by code_simp
  have b: "?p ''B'' = Some (Some ''D'')"
    by code_simp
  have n: "\<not> has_negative_cycle (fst (bf_distances fiveNodes (largeEdges linkDB) ''A'')) (largeEdges linkDB)"
    by code_simp
  have w: "walk ?p (Some ''D'') [] = None"
  proof (cases "walk ?p (Some ''D'') []")
    case None
    then show ?thesis .
  next
    case (Some l)
    from walk_cycle [OF this, of "''D''" "''B''"] d b show ?thesis by simp
  qed
  have "bf_execute fiveNodes (largeEdges linkDB) ''A'' ''D'' = None"
    using n w
    by (cases "bf_distances fiveNodes (largeEdges linkDB) ''A''")
       (simp add: bf_execute_def assemble_def)
  with r d b n show ?thesis by simp
qed

section \<open>Rounding to a double\<close>

lemma two53: "(2::int) ^ 53 = 9007199254740992"
  by simp

lemma bit_length_pos: "0 < n \<Longrightarrow> bit_length n = Suc (bit_length (n div 2))"
  by (subst bit_length.simps) simp

lemma bit_length_nonpos: "n \<le> 0 \<Longrightarrow> bit_length n = 0"
  by (subst bit_length.simps) simp

lemma bit_length_eq: "2 ^ k \<le> n \<Longrightarrow> n < 2 ^ Suc k \<Longrightarrow> bit_length n = Suc k"
proof (induction k arbitrary: n)
  case 0
  then have "n = 1" by simp
  then show ?case
    by (simp add: bit_length_pos bit_length_nonpos)
next
  case (Suc k)
  have p: "0 < n"
    using Suc.prems(1) by (smt (verit) zero_less_power)
  have "2 ^ k \<le> n div 2"
    using Suc.prems(1) by simp
  moreover have "n div 2 < 2 ^ Suc k"
    using Suc.prems(2) by simp
  ultimately have "bit_length (n div 2) = Suc k"
    by (rule Suc.IH)
  with p show ?case
    by (simp add: bit_length_pos)
qed

lemma bit_length_bounds: "0 < n \<Longrightarrow> 2 ^ (bit_length n - 1) \<le> n \<and> n < 2 ^ bit_length n"
proof (induction n rule: bit_length.induct)
  case (1 n)
  show ?case
  proof (cases "n = 1")
    case True
    then show ?thesis
      by (simp add: bit_length_pos bit_length_nonpos)
  next
    case False
    with "1.prems" have h: "0 < n div 2" by simp
    from "1.IH" [OF _ h] "1.prems"
    have ih: "2 ^ (bit_length (n div 2) - 1) \<le> n div 2 \<and> n div 2 < 2 ^ bit_length (n div 2)"
      by simp
    from h have "0 < bit_length (n div 2)"
      by (simp add: bit_length_pos)
    then obtain j where j: "bit_length (n div 2) = Suc j"
      by (cases "bit_length (n div 2)") auto
    with ih have "2 ^ j \<le> n div 2" and "n div 2 < 2 ^ Suc j" by simp_all
    then have "2 ^ Suc j \<le> n" and "n < 2 ^ Suc (Suc j)" by simp_all
    with j "1.prems" show ?thesis
      by (simp add: bit_length_pos)
  qed
qed

lemma bit_length_mono: "m \<le> n \<Longrightarrow> bit_length m \<le> bit_length n"
proof (cases "0 < m")
  case False
  then show ?thesis by (simp add: bit_length_nonpos)
next
  case True
  assume mn: "m \<le> n"
  with True have n: "0 < n" by simp
  show ?thesis
  proof (rule ccontr)
    assume "\<not> bit_length m \<le> bit_length n"
    then have "bit_length n \<le> bit_length m - 1" by simp
    then have "(2::int) ^ bit_length n \<le> 2 ^ (bit_length m - 1)"
      by (simp add: power_increasing)
    with bit_length_bounds [OF True] bit_length_bounds [OF n] mn show False
      by linarith
  qed
qed


lemma round_at_mono:
  assumes "m \<le> m'"
  shows "round_at k m \<le> round_at k m'"
proof -
  define P :: int where "P = 2 ^ k"
  have P: "0 < P" by (simp add: P_def)
  define q r q' r' where "q = m div P" and "r = m mod P" and "q' = m' div P" and "r' = m' mod P"
  have m: "m = q * P + r" and m': "m' = q' * P + r'"
    by (simp_all add: q_def r_def q'_def r'_def)
  have r: "0 \<le> r" "r < P" and r': "0 \<le> r'" "r' < P"
    using P by (simp_all add: r_def r'_def)
  have qq: "q \<le> q'"
    using assms P by (simp add: q_def q'_def zdiv_mono1)
  have ra: "round_at k m = (if 2 * r < P \<or> (2 * r = P \<and> even q) then q * P else (q + 1) * P)"
    by (simp add: round_at_def Let_def P_def q_def r_def)
  have ra': "round_at k m' = (if 2 * r' < P \<or> (2 * r' = P \<and> even q') then q' * P else (q' + 1) * P)"
    by (simp add: round_at_def Let_def P_def q'_def r'_def)
  show ?thesis
  proof (cases "q = q'")
    case True
    with assms m m' have "r \<le> r'" by simp
    with True show ?thesis
      unfolding ra ra' using P by (auto simp: algebra_simps)
  next
    case False
    with qq have "q + 1 \<le> q'" by simp
    then have "(q + 1) * P \<le> q' * P"
      using P by (simp add: mult_right_mono)
    moreover have "round_at k m \<le> (q + 1) * P"
      unfolding ra using P by (auto simp: algebra_simps)
    moreover have "q' * P \<le> round_at k m'"
      unfolding ra' using P by (auto simp: algebra_simps)
    ultimately show ?thesis by linarith
  qed
qed

lemma round_at_bounds:
  assumes "2 ^ (52 + k) \<le> m" and "m < 2 ^ (53 + k)"
  shows "2 ^ (52 + k) \<le> round_at k m \<and> round_at k m \<le> 2 ^ (53 + k)
     \<and> (\<exists>q. round_at k m = q * 2 ^ k \<and> 2 ^ 52 \<le> q \<and> q \<le> 2 ^ 53)"
proof -
  define P :: int where "P = 2 ^ k"
  define A :: int where "A = 2 ^ 52"
  define B :: int where "B = 2 ^ 53"
  have P: "0 < P" by (simp add: P_def)
  define q r where "q = m div P" and "r = m mod P"
  have m: "m = q * P + r"
    by (simp add: q_def r_def)
  have r: "0 \<le> r" "r < P"
    using P by (simp_all add: r_def)
  have lo: "A * P \<le> m" and hi: "m < B * P"
    using assms by (simp_all only: P_def A_def B_def power_add)
  have "q * P < B * P"
    using hi m r by linarith
  then have q1: "q < B"
    using P mult_less_cancel_right_pos by blast
  have "A * P < (q + 1) * P"
    using lo m r by (simp add: algebra_simps)
  then have "A < q + 1"
    using P mult_less_cancel_right_pos by blast
  then have q0: "A \<le> q" by simp
  have ra: "round_at k m = q * P \<or> round_at k m = (q + 1) * P"
    by (simp add: round_at_def Let_def P_def q_def r_def)
  then have "\<exists>q''. round_at k m = q'' * P \<and> A \<le> q'' \<and> q'' \<le> B"
  proof
    assume "round_at k m = q * P"
    with q0 q1 show ?thesis by (intro exI [of _ q]) simp
  next
    assume "round_at k m = (q + 1) * P"
    with q0 q1 show ?thesis by (intro exI [of _ "q + 1"]) simp
  qed
  then obtain q'' where q'': "round_at k m = q'' * P" "A \<le> q''" "q'' \<le> B"
    by blast
  from q''(2) have "A * P \<le> q'' * P"
    using P by (simp add: mult_right_mono)
  moreover from q''(3) have "q'' * P \<le> B * P"
    using P by (simp add: mult_right_mono)
  ultimately have "2 ^ (52 + k) \<le> round_at k m" "round_at k m \<le> 2 ^ (53 + k)"
    using q''(1) by (simp_all only: P_def A_def B_def power_add)
  moreover have "\<exists>q. round_at k m = q * 2 ^ k \<and> 2 ^ 52 \<le> q \<and> q \<le> 2 ^ 53"
    using q'' unfolding P_def A_def B_def by blast
  ultimately show ?thesis by blast
qed

lemma round_at_fix: "2 ^ k dvd m \<Longrightarrow> round_at k m = m"
  by (auto simp: round_at_def Let_def)


lemma round_magnitude_small: "m < 2 ^ 53 \<Longrightarrow> round_magnitude m = m"
  by (simp add: round_magnitude_def)

lemma round_magnitude_large:
  assumes "2 ^ 53 \<le> m"
  shows "\<exists>k. bit_length m = 53 + k \<and> 0 < k \<and> round_magnitude m = round_at k m
           \<and> 2 ^ (52 + k) \<le> m \<and> m < 2 ^ (53 + k)"
proof -
  have p: "0 < m"
    using assms by (smt (verit) zero_less_power)
  note b = bit_length_bounds [OF p]
  have "(2::int) ^ 53 < 2 ^ bit_length m"
    using assms b by linarith
  then have "53 < bit_length m"
    by (rule power_less_imp_less_exp [rotated]) simp
  then obtain k where k: "bit_length m = 53 + k" "0 < k"
    by (metis less_imp_add_positive)
  then have "bit_length m - 1 = 52 + k" by simp
  with b k have "2 ^ (52 + k) \<le> m" "m < 2 ^ (53 + k)" by simp_all
  moreover have "round_magnitude m = round_at k m"
    using assms k by (simp add: round_magnitude_def)
  ultimately show ?thesis
    using k by blast
qed

lemma round_magnitude_mono:
  assumes "m \<le> m'"
  shows "round_magnitude m \<le> round_magnitude m'"
proof (cases "m' < 2 ^ 53")
  case True
  with assms show ?thesis
    by (simp add: round_magnitude_small)
next
  case False
  then have l': "2 ^ 53 \<le> m'" by simp
  from round_magnitude_large [OF l'] obtain k' where k': "bit_length m' = 53 + k'" "0 < k'"
    "round_magnitude m' = round_at k' m'" "2 ^ (52 + k') \<le> m'" "m' < 2 ^ (53 + k')"
    by blast
  note b' = round_at_bounds [OF k'(4,5)]
  show ?thesis
  proof (cases "m < 2 ^ 53")
    case True
    have "(2::int) ^ 53 \<le> 2 ^ (52 + k')"
      using k'(2) by (intro power_increasing) simp_all
    with True b' k'(3) show ?thesis
      by (simp add: round_magnitude_small)
  next
    case False
    then have l: "2 ^ 53 \<le> m" by simp
    from round_magnitude_large [OF l] obtain k where k: "bit_length m = 53 + k" "0 < k"
      "round_magnitude m = round_at k m" "2 ^ (52 + k) \<le> m" "m < 2 ^ (53 + k)"
      by blast
    note b = round_at_bounds [OF k(4,5)]
    from bit_length_mono [OF assms] k(1) k'(1) have kk: "k \<le> k'" by simp
    show ?thesis
    proof (cases "k = k'")
      case True
      with k(3) k'(3) round_at_mono [OF assms, of k] show ?thesis by simp
    next
      case False
      with kk have "53 + k \<le> 52 + k'" by simp
      then have "(2::int) ^ (53 + k) \<le> 2 ^ (52 + k')"
        by (simp only: power_increasing)
      with b b' k(3) k'(3) show ?thesis by linarith
    qed
  qed
qed

lemma round_magnitude_idem: "round_magnitude (round_magnitude m) = round_magnitude m"
proof (cases "m < 2 ^ 53")
  case True
  then show ?thesis
    by (simp add: round_magnitude_small)
next
  case False
  then have l: "2 ^ 53 \<le> m" by simp
  from round_magnitude_large [OF l] obtain k where k: "bit_length m = 53 + k" "0 < k"
    "round_magnitude m = round_at k m" "2 ^ (52 + k) \<le> m" "m < 2 ^ (53 + k)"
    by blast
  from round_at_bounds [OF k(4,5)] obtain q where q: "round_at k m = q * 2 ^ k" "2 ^ 52 \<le> q" "q \<le> 2 ^ 53"
    and lo: "2 ^ (52 + k) \<le> round_at k m" and hi: "round_at k m \<le> 2 ^ (53 + k)"
    by blast
  define n where "n = round_at k m"
  have "(2::int) ^ 53 \<le> 2 ^ (52 + k)"
    using k(2) by (intro power_increasing) simp_all
  with lo have ln: "2 ^ 53 \<le> n" by (simp add: n_def)
  from round_magnitude_large [OF ln] obtain j where j: "bit_length n = 53 + j" "0 < j"
    "round_magnitude n = round_at j n" "2 ^ (52 + j) \<le> n" "n < 2 ^ (53 + j)"
    by blast
  have "(2::int) ^ (52 + k) < 2 ^ (53 + j)"
    using lo j(5) unfolding n_def by linarith
  then have "52 + k < 53 + j"
    by (simp only: power_strict_increasing_iff)
  then have kj: "k \<le> j" by simp
  have "(2::int) ^ (52 + j) \<le> 2 ^ (53 + k)"
    using hi j(4) unfolding n_def by linarith
  then have "52 + j \<le> 53 + k"
    by (simp only: power_increasing_iff)
  then have jk: "j \<le> k + 1" by simp
  have "2 ^ j dvd n"
  proof (cases "j = k")
    case True
    with q(1) show ?thesis by (simp add: n_def)
  next
    case False
    with kj jk have j1: "j = k + 1" by simp
    with j(4) have "2 ^ (53 + k) \<le> n" by simp
    with hi have "n = 2 ^ (53 + k)" by (simp add: n_def)
    then have "n = 2 ^ 52 * 2 ^ j"
      using j1 by (simp add: power_add)
    then show ?thesis by simp
  qed
  then have "round_at j n = n"
    by (rule round_at_fix)
  with j(3) k(3) show ?thesis
    by (simp add: n_def)
qed

lemma round_magnitude_nonneg: "0 \<le> m \<Longrightarrow> 0 \<le> round_magnitude m"
  using round_magnitude_mono [of 0 m] by (simp add: round_magnitude_small)

lemma round_magnitude_ge: "2 ^ 53 \<le> m \<Longrightarrow> 2 ^ 53 \<le> round_magnitude m"
  using round_magnitude_mono [of "2 ^ 53" m] round_magnitude_idem [of "2 ^ 53"]
  by (simp add: round_magnitude_def round_at_def bit_length_eq [of 53])


lemma bit_length_small: "m < 2 ^ 53 \<Longrightarrow> bit_length m \<le> 53"
proof (cases "0 < m")
  case False
  then show ?thesis by (simp add: bit_length_nonpos)
next
  case True
  assume "m < 2 ^ 53"
  with bit_length_bounds [OF True] have "(2::int) ^ (bit_length m - 1) < 2 ^ 53" by linarith
  then have "bit_length m - 1 < 53"
    by (rule power_less_imp_less_exp [rotated]) simp
  then show ?thesis by simp
qed

lemma round_double_nonneg:
  assumes "0 \<le> x"
  shows "round_double x =
    (if bit_length (round_magnitude x) \<le> 1024 then Fin (round_magnitude x) else Infinity)"
proof (cases "x < 2 ^ 53")
  case True
  with bit_length_small [OF True] assms show ?thesis
    by (simp add: round_double_def round_magnitude_small)
next
  case False
  then have "2 ^ 53 \<le> x" by simp
  with assms show ?thesis
    by (auto simp: round_double_def Let_def)
qed

lemma round_double_neg: "round_double (- x) = (case round_double x of Fin a \<Rightarrow> Fin (- a)
    | Infinity \<Rightarrow> NegInfinity | NegInfinity \<Rightarrow> Infinity)"
  by (auto simp: round_double_def Let_def)

lemma round_double_small: "\<bar>n\<bar> < 2 ^ 53 \<Longrightarrow> round_double n = Fin n"
  by (simp add: round_double_def)

lemma round_double_sign:
  assumes "0 \<le> x"
  shows "round_double x \<noteq> NegInfinity \<and> (\<forall>b. round_double x = Fin b \<longrightarrow> 0 \<le> b)"
  using assms round_magnitude_nonneg [OF assms] by (simp add: round_double_nonneg)

lemma round_double_mono:
  assumes "0 \<le> x" and "x \<le> y" and "round_double y = Fin b"
  shows "\<exists>a. round_double x = Fin a \<and> a \<le> b"
proof -
  from assms have y: "0 \<le> y" by simp
  from assms(3) have b: "bit_length (round_magnitude y) \<le> 1024" "b = round_magnitude y"
    by (auto simp: round_double_nonneg [OF y] split: if_splits)
  note m = round_magnitude_mono [OF assms(2)]
  from bit_length_mono [OF m] b(1) have "bit_length (round_magnitude x) \<le> 1024" by simp
  with m b(2) show ?thesis
    by (simp add: round_double_nonneg [OF assms(1)])
qed

lemma round_double_idem_nonneg:
  assumes "0 \<le> x" and "round_double x = Fin b"
  shows "round_double b = Fin b"
proof -
  from assms(2) have b: "bit_length (round_magnitude x) \<le> 1024" "b = round_magnitude x"
    by (auto simp: round_double_nonneg [OF assms(1)] split: if_splits)
  have "0 \<le> b"
    using b(2) round_magnitude_nonneg [OF assms(1)] by simp
  with b show ?thesis
    by (simp add: round_double_nonneg round_magnitude_idem)
qed

lemma round_double_idem:
  assumes "round_double x = Fin b"
  shows "round_double b = Fin b"
proof (cases "0 \<le> x")
  case True
  then show ?thesis using assms by (rule round_double_idem_nonneg)
next
  case False
  then have x: "0 \<le> - x" by simp
  from assms have "round_double (- x) = Fin (- b)"
    by (simp add: round_double_neg)
  from round_double_idem_nonneg [OF x this] have "round_double (- b) = Fin (- b)" .
  then show ?thesis
    by (auto simp: round_double_neg [of b] split: jsnum.splits)
qed

text \<open>Adding a non-negative weight to a double does not make it smaller.\<close>

lemma round_double_add_ge:
  assumes "0 \<le> a" and "round_double a = Fin a" and "0 \<le> w" and "round_double (a + w) = Fin b"
  shows "a \<le> b"
  using round_double_mono [OF assms(1) _ assms(4)] assms(2,3) by simp

lemma round_double_add_ge_any:
  assumes r: "round_double a = Fin a" and w: "0 \<le> w"
  shows "\<not> js_lt (Some (round_double (a + w))) (Some (Fin a))"
proof (cases "0 \<le> a")
  case True
  with w have s: "0 \<le> a + w" by simp
  show ?thesis
  proof (cases "round_double (a + w)")
    case (Fin b)
    from round_double_add_ge [OF True r w Fin] Fin show ?thesis by simp
  next
    case Infinity
    then show ?thesis by simp
  next
    case NegInfinity
    with round_double_sign [OF s] show ?thesis by simp
  qed
next
  case False
  then have neg: "a < 0" by simp
  show ?thesis
  proof (cases "0 \<le> a + w")
    case True
    show ?thesis
    proof (cases "round_double (a + w)")
      case (Fin b)
      with round_double_sign [OF True] neg show ?thesis by auto
    next
      case Infinity
      then show ?thesis by simp
    next
      case NegInfinity
      with round_double_sign [OF True] show ?thesis by simp
    qed
  next
    case False
    then have x: "0 \<le> - (a + w)" and xy: "- (a + w) \<le> - a"
      using w by simp_all
    from r have y: "round_double (- a) = Fin (- a)"
      by (simp add: round_double_neg)
    from round_double_mono [OF x xy y] obtain c where c: "round_double (- (a + w)) = Fin c" "c \<le> - a"
      by blast
    have "round_double (- (- (a + w))) = Fin (- c)"
      unfolding round_double_neg [of "- (a + w)"] c(1) by simp
    then have "round_double (a + w) = Fin (- c)"
      by (simp only: minus_minus)
    with c(2) show ?thesis by simp
  qed
qed


section \<open>Predecessor chains and path reconstruction\<close>

lemma js_lt_trans: "js_lt x y \<Longrightarrow> js_lt y z \<Longrightarrow> js_lt x z"
proof -
  assume a: "js_lt x y" and b: "js_lt y z"
  from js_lt_defined [OF a] js_lt_defined [OF b]
  obtain u v w where "x = Some u" "y = Some v" "z = Some w" by auto
  with a b show ?thesis
    by (cases u; cases v; cases w) simp_all
qed

lemma js_lt_irrefl: "\<not> js_lt x x"
proof (cases x)
  case None
  then show ?thesis by simp
next
  case (Some u)
  then show ?thesis by (cases u) simp_all
qed

lemma js_lt_Fin:
  "js_lt x (Some (Fin b)) \<longleftrightarrow> x = Some NegInfinity \<or> (\<exists>a. x = Some (Fin a) \<and> a < b)"
proof (cases x)
  case None
  then show ?thesis by simp
next
  case (Some u)
  then show ?thesis by (cases u) simp_all
qed

lemma js_lt_Fin_left:
  "js_lt (Some (Fin a)) y \<longleftrightarrow> y = Some Infinity \<or> (\<exists>b. y = Some (Fin b) \<and> a < b)"
proof (cases y)
  case None
  then show ?thesis by simp
next
  case (Some u)
  then show ?thesis by (cases u) simp_all
qed

lemma ends_update_other:
  assumes "ends p x" and "ends (p(t \<mapsto> y)) t"
  shows "ends (p(t \<mapsto> y)) x"
  using assms(1)
proof (induction rule: ends.induct)
  case (ends_null v)
  show ?case
  proof (cases "v = t")
    case True
    with assms(2) show ?thesis by (simp only:)
  next
    case False
    with ends_null have "(p(t \<mapsto> y)) v = Some None" by simp
    then show ?thesis by (rule ends.ends_null)
  qed
next
  case (ends_step v u)
  show ?case
  proof (cases "v = t")
    case True
    with assms(2) show ?thesis by (simp only:)
  next
    case False
    with ends_step have "(p(t \<mapsto> y)) v = Some (Some u)" by simp
    then show ?thesis using ends_step(3) by (rule ends.ends_step)
  qed
qed

lemma ends_avoid:
  assumes "ends p v" and "\<forall>x u. p x = Some (Some u) \<longrightarrow> u \<in> S" and "v \<in> S" and "n \<notin> S"
  shows "ends (p(n \<mapsto> y)) v"
  using assms(1,3)
proof (induction rule: ends.induct)
  case (ends_null v)
  with assms(4) have "(p(n \<mapsto> y)) v = Some None" by auto
  then show ?case by (rule ends.ends_null)
next
  case (ends_step v u)
  from ends_step(1) assms(2) have u: "u \<in> S" by blast
  from ends_step(1,4) assms(4) have "(p(n \<mapsto> y)) v = Some (Some u)" by auto
  then show ?case using ends_step(3) [OF u] by (rule ends.ends_step)
qed

lemma ends_walk: "ends p v \<Longrightarrow> \<exists>l. \<forall>acc. walk p (Some v) acc = Some (l @ v # acc)"
proof (induction rule: ends.induct)
  case (ends_null v)
  then have "walk p (Some v) acc = Some ([] @ v # acc)" for acc
    by (subst walk.simps) (simp add: walk.simps)
  then show ?case by blast
next
  case (ends_step v u)
  then obtain l where l: "\<And>acc. walk p (Some u) acc = Some (l @ u # acc)" by blast
  from ends_step(1) have "walk p (Some v) acc = Some ((l @ [u]) @ v # acc)" for acc
    by (subst walk.simps) (simp add: l)
  then show ?case by blast
qed

lemma walk_null: "p v = Some None \<Longrightarrow> walk p (Some v) acc = Some (v # acc)"
  by (subst walk.simps) (simp add: walk.simps)

lemma walk_result:
  assumes "walk p c acc = Some l"
  shows "set acc \<subseteq> set l \<and> (\<forall>v. c = Some v \<longrightarrow> v \<in> set l)"
  using assms
proof (induct rule: walk.raw_induct [rotated 1, consumes 1, case_names step])
  case (step walk' p c acc l)
  show ?case
  proof (cases c)
    case None
    with step(2) show ?thesis by simp
  next
    case (Some v)
    note c = this
    show ?thesis
    proof (cases "p v")
      case None
      with c step(2) show ?thesis by simp
    next
      case (Some nxt)
      with c step(2) have "walk' p nxt (v # acc) = Some l" by simp
      from step(1) [OF this] c show ?thesis by auto
    qed
  qed
qed

section \<open>The routing table of Dijkstra and Bellman-Ford\<close>

lemma routing_rows_result:
  "routing_rows d p src nodes = Some rows \<Longrightarrow>
     map destination rows = table_nodes d src nodes
     \<and> (\<forall>row\<in>set rows. d (destination row) = Some (cost row) \<and> cost row \<noteq> Infinity
           \<and> destination row \<noteq> src
           \<and> walk p (Some (destination row)) [] = Some (route row))"
proof (induction nodes arbitrary: rows)
  case Nil
  then show ?case by (simp add: table_nodes_def)
next
  case (Cons n ns)
  from Cons.prems obtain c where c: "d (node_id n) = Some c"
    by (auto split: option.splits)
  show ?case
  proof (cases "node_id n \<noteq> src \<and> c \<noteq> Infinity")
    case False
    with Cons.prems c have "routing_rows d p src ns = Some rows" by auto
    from Cons.IH [OF this] False c show ?thesis by (auto simp: table_nodes_def)
  next
    case True
    with Cons.prems c obtain nodePath rest where np: "walk p (Some (node_id n)) [] = Some nodePath"
      and rest: "routing_rows d p src ns = Some rest"
      and rows: "rows = \<lparr>destination = node_id n,
                             nextHop = (if length nodePath > 1 then nodePath ! 1 else node_id n),
                             cost = c,
                             hops = int (length nodePath) - 1,
                             route = nodePath\<rparr> # rest"
      by (auto split: option.splits)
    from Cons.IH [OF rest] True c np show ?thesis
      unfolding rows by (auto simp: table_nodes_def)
  qed
qed

lemma routing_rows_returns:
  assumes "\<forall>n\<in>set nodes. d (node_id n) \<noteq> None \<and> ends p (node_id n)"
  shows "\<exists>rows. routing_rows d p src nodes = Some rows"
  using assms
proof (induction nodes)
  case Nil
  show ?case by simp
next
  case (Cons n ns)
  then obtain rest where rest: "routing_rows d p src ns = Some rest" by auto
  from Cons.prems obtain c where c: "d (node_id n) = Some c" by auto
  from Cons.prems ends_walk [of p "node_id n"] obtain l
    where "walk p (Some (node_id n)) [] = Some (l @ [node_id n])" by auto
  with rest c show ?case by simp
qed

lemma assemble_returns:
  assumes dd: "node_ids nodes \<subseteq> dom d" and e: "\<forall>v\<in>node_ids nodes. ends p v"
    and dn: "dest \<in> node_ids nodes"
  shows "\<exists>r. assemble nodes src dest d p its = Some r"
proof -
  from e dn have "ends p dest" by simp
  from ends_walk [OF this] obtain l where "walk p (Some dest) [] = Some (l @ [dest])"
    by auto
  moreover have "\<forall>n\<in>set nodes. d (node_id n) \<noteq> None \<and> ends p (node_id n)"
    using dd e by (auto simp: node_ids_def)
  from routing_rows_returns [OF this] obtain rows where "routing_rows d p src nodes = Some rows"
    by blast
  ultimately show ?thesis by (simp add: assemble_def)
qed

lemma assemble_result:
  assumes "assemble nodes src dest d p its = Some r"
  shows "\<exists>pth. walk p (Some dest) [] = Some pth \<and> dest \<in> set pth
      \<and> path r = (if src \<in> set pth then pth else [])
      \<and> (path r = [] \<longleftrightarrow> src \<notin> set pth)
      \<and> map destination (routingTable r) = table_nodes d src nodes
      \<and> (\<forall>row\<in>set (routingTable r). d (destination row) = Some (cost row) \<and> cost row \<noteq> Infinity)"
proof -
  from assms obtain pth rows where w: "walk p (Some dest) [] = Some pth"
    and rr: "routing_rows d p src nodes = Some rows"
    and r: "r = \<lparr>distances = d, previous = p, path = (if src \<in> set pth then pth else []),
                     routingTable = rows, iterations = its\<rparr>"
    by (auto simp: assemble_def split: option.splits)
  from walk_result [OF w] have dp: "dest \<in> set pth" by simp
  then have "pth \<noteq> []" by auto
  with routing_rows_result [OF rr] w dp show ?thesis
    unfolding r by auto
qed

lemma assemble_unreachable:
  assumes s: "confined nodes edges src (d, p)" and dn: "dest \<in> node_ids nodes"
    and nr: "\<not> reachable nodes edges src dest"
    and a: "assemble nodes src dest d p its = Some r"
  shows "path r = [] \<and> distances r dest = Some Infinity"
proof -
  from s dn nr have di: "d dest = Some Infinity" and pn: "p dest = Some None"
    by (auto simp: confined_def)
  from pn have w: "walk p (Some dest) [] = Some [dest]"
    by (rule walk_null [of p dest "[]"])
  have "src \<noteq> dest"
  proof
    assume "src = dest"
    with dn have "reachable nodes edges src dest" by (auto intro: reach_source)
    with nr show False ..
  qed
  with assemble_result [OF a] w assemble_maps [OF a] di show ?thesis by auto
qed

lemma dijkstra_execute_assemble:
  assumes "dijkstra_execute nodes edges src dest = Some (Inr r)"
  shows "assemble nodes src dest (distances r) (previous r) (iterations r) = Some r"
proof -
  from assms obtain g d p its where "assemble nodes src dest d p its = Some r"
    unfolding dijkstra_execute_cases by blast
  with assemble_maps [OF this] show ?thesis by simp
qed

lemma bf_execute_assemble:
  assumes "bf_execute nodes edges src dest = Some (Inr r)"
  shows "assemble nodes src dest (distances r) (previous r) (iterations r) = Some r"
proof -
  from assms obtain d p its where "assemble nodes src dest d p its = Some r"
    by (cases "bf_distances nodes edges src") (auto simp: bf_execute_def split: if_splits)
  with assemble_maps [OF this] show ?thesis by simp
qed


section \<open>Dijkstra returns\<close>

lemma doubles_init: "doubles (init_distances nodes src)"
  by (auto simp: doubles_def init_distances_apply round_double_def split: if_splits)

lemma doubles_relax_step:
  assumes "doubles (fst dp)"
  shows "doubles (fst (relax_step dp f t w))"
proof (cases "relaxable (fst dp) f t w")
  case False
  with assms show ?thesis by (simp add: relax_step_def)
next
  case True
  from relaxable_defined [OF True] obtain x where x: "fst dp f = Some x" by blast
  have "round_double b = Fin b" if "js_add (fst dp f) w = Some (Fin b)" for b
    using that x round_double_idem [of _ b] by (cases x) auto
  with True assms show ?thesis
    by (auto simp: relax_step_def doubles_def)
qed

lemma no_self_relax:
  assumes "doubles d" and "0 \<le> w"
  shows "\<not> relaxable d c c w"
proof
  assume r: "relaxable d c c w"
  from relaxable_defined [OF r] obtain x where x: "d c = Some x" by blast
  show False
  proof (cases x)
    case (Fin a)
    with x assms(1) have "round_double a = Fin a" by (simp add: doubles_def)
    from round_double_add_ge_any [OF this assms(2)] r x Fin show False
      by (simp add: relaxable_def)
  next
    case Infinity
    with r x show False by (simp add: relaxable_def)
  next
    case NegInfinity
    with r x show False by (simp add: relaxable_def)
  qed
qed

lemma rooted_mono: "rooted S p \<Longrightarrow> S \<subseteq> S' \<Longrightarrow> rooted S' p"
  unfolding rooted_def by blast

lemma rooted_init: "rooted {} (init_previous nodes)"
  unfolding rooted_def
  by (auto simp: init_previous_apply intro: ends_null split: if_splits)

lemma rooted_relax_step:
  assumes c: "confined nodes edges src dp" and r: "rooted S (snd dp)"
    and cS: "c \<in> S" and nS: "n \<notin> S"
  shows "rooted S (snd (relax_step dp c n w))"
proof (cases "relaxable (fst dp) c n w")
  case False
  with r show ?thesis by (simp add: relax_step_def)
next
  case True
  let ?p = "snd dp"
  let ?p' = "?p(n \<mapsto> Some c)"
  have s: "snd (relax_step dp c n w) = ?p'"
    using True by (simp add: relax_step_def)
  from r have t: "\<forall>x u. ?p x = Some (Some u) \<longrightarrow> u \<in> S"
    and e: "\<And>v. ?p v \<noteq> None \<Longrightarrow> ends ?p v"
    by (auto simp: rooted_def)
  from relaxable_defined [OF True] c have "?p c \<noteq> None"
    by (auto simp: confined_def)
  from ends_avoid [OF e [OF this] t cS nS] have ec: "ends ?p' c" .
  have en: "ends ?p' n"
    by (rule ends_step [OF _ ec]) simp
  show ?thesis
    unfolding s rooted_def
  proof (intro conjI allI impI)
    fix v u
    assume "?p' v = Some (Some u)"
    with t cS show "u \<in> S" by (auto split: if_splits)
  next
    fix v
    assume "?p' v \<noteq> None"
    then have "v = n \<or> ?p v \<noteq> None" by (auto split: if_splits)
    then show "ends ?p' v"
      using en ends_update_other [OF e en] by auto
  qed
qed

lemma joined_loop: "no_negative_loops edges \<Longrightarrow> joined edges c c w \<Longrightarrow> 0 \<le> w"
  by (auto simp: no_negative_loops_def joined_def)

lemma update_neighbors_rooted:
  assumes g: "\<forall>v n w. adjw g v n = Some w \<longrightarrow> joined edges v n w"
    and nl: "no_negative_loops edges"
    and k: "confined nodes edges src dp \<and> doubles (fst dp) \<and> rooted (insert c V) (snd dp)"
  shows "confined nodes edges src (update_neighbors g c V dp)
    \<and> doubles (fst (update_neighbors g c V dp))
    \<and> rooted (insert c V) (snd (update_neighbors g c V dp))"
proof (cases "g c")
  case None
  with k show ?thesis by (simp add: update_neighbors_def)
next
  case (Some adj)
  have "confined nodes edges src (foldl (relax_neighbor adj c V) dp ks)
    \<and> doubles (fst (foldl (relax_neighbor adj c V) dp ks))
    \<and> rooted (insert c V) (snd (foldl (relax_neighbor adj c V) dp ks))" for ks
    using k
  proof (induction ks arbitrary: dp)
    case Nil
    then show ?case by simp
  next
    case (Cons n ks)
    have "confined nodes edges src (relax_neighbor adj c V dp n)
      \<and> doubles (fst (relax_neighbor adj c V dp n))
      \<and> rooted (insert c V) (snd (relax_neighbor adj c V dp n))"
    proof (cases "n \<notin> V \<and> map_of adj n \<noteq> None")
      case False
      with Cons.prems show ?thesis by (auto simp: relax_neighbor_step)
    next
      case True
      then obtain w where w: "map_of adj n = Some w" by auto
      with Some have "adjw g c n = Some w" by (simp add: adjw_def)
      with g have j: "joined edges c n w" by blast
      from True w have s: "relax_neighbor adj c V dp n = relax_step dp c n w"
        by (simp add: relax_neighbor_step)
      from Cons.prems have cf: "confined nodes edges src dp" and db: "doubles (fst dp)"
        and rt: "rooted (insert c V) (snd dp)" by simp_all
      have "rooted (insert c V) (snd (relax_step dp c n w))"
      proof (cases "n = c")
        case True
        with j have "0 \<le> w" using joined_loop [OF nl] by simp
        from no_self_relax [OF db this, of c] True rt show ?thesis
          by (simp add: relax_step_def)
      next
        case False
        with True have "n \<notin> insert c V" by simp
        from rooted_relax_step [OF cf rt _ this] show ?thesis by simp
      qed
      with confined_relax_step [OF cf j] doubles_relax_step [OF db] show ?thesis
        unfolding s by simp
    qed
    from Cons.IH [OF this] show ?case by simp
  qed
  with Some show ?thesis by (simp add: update_neighbors_def)
qed

lemma dijkstra_loop_rooted:
  assumes g: "\<forall>v n w. adjw g v n = Some w \<longrightarrow> joined edges v n w"
    and nl: "no_negative_loops edges"
    and k: "confined nodes edges src (fst st, fst (snd st)) \<and> doubles (fst st)
              \<and> rooted (fst (snd (snd st))) (fst (snd st))"
  shows "confined nodes edges src (fst (dijkstra_loop g dest st), fst (snd (dijkstra_loop g dest st)))
    \<and> (\<exists>S. rooted S (fst (snd (dijkstra_loop g dest st))))"
  using g k
proof (induction g dest st rule: dijkstra_loop.induct)
  case (1 g dest d p visited unvisited its)
  let ?c = "min_node d unvisited"
  let ?u = "update_neighbors g ?c visited (d, p)"
  from "1.prems"(2) have cf: "confined nodes edges src (d, p)" and db: "doubles d"
    and rt: "rooted visited p" by simp_all
  from rooted_mono [OF rt, of "insert ?c visited"] have "rooted (insert ?c visited) p" by auto
  with update_neighbors_rooted [OF "1.prems"(1) nl, of nodes src "(d, p)" ?c visited] cf db
  have u: "confined nodes edges src ?u" "doubles (fst ?u)" "rooted (insert ?c visited) (snd ?u)"
    by simp_all
  show ?case
  proof (cases "unvisited = [] \<or> d ?c = Some Infinity")
    case True
    then have "dijkstra_loop g dest (d, p, visited, unvisited, its) = (d, p, its)
        \<or> dijkstra_loop g dest (d, p, visited, unvisited, its) = (d, p, Suc its)"
      by (subst dijkstra_loop_unfold, subst (2) dijkstra_loop_unfold) auto
    with cf rt show ?thesis
      by auto
  next
    case False
    show ?thesis
    proof (cases "?c = dest")
      case True
      with False have "dijkstra_loop g dest (d, p, visited, unvisited, its) = (fst ?u, snd ?u, Suc its)"
        by (subst dijkstra_loop_unfold) simp
      with u show ?thesis
        by auto
    next
      case nd: False
      let ?st = "(fst ?u, snd ?u, insert ?c visited, removeAll ?c unvisited, Suc its)"
      have "confined nodes edges src (fst (dijkstra_loop g dest ?st), fst (snd (dijkstra_loop g dest ?st)))
        \<and> (\<exists>S. rooted S (fst (snd (dijkstra_loop g dest ?st))))"
        using "1.IH" [of ?c "fst ?u" "snd ?u"] False nd "1.prems"(1) u by simp
      moreover from False nd
      have "dijkstra_loop g dest (d, p, visited, unvisited, its) = dijkstra_loop g dest ?st"
        by (subst dijkstra_loop_unfold) simp
      ultimately show ?thesis
        by simp
    qed
  qed
qed

lemma dijkstra_returns:
  assumes ek: "endpoints_known nodes edges" and nl: "no_negative_loops edges"
    and dn: "dest \<in> node_ids nodes"
  shows "\<exists>r. dijkstra_execute nodes edges src dest = Some (Inr r)"
proof -
  let ?init = "(init_distances nodes src, init_previous nodes, {}, new_Set (map node_id nodes), 0::nat)"
  have "dom (init_graph nodes) = node_ids nodes"
    by (auto simp: init_graph_apply dom_def)
  with ek have "\<forall>e\<in>set edges. source e \<in> dom (init_graph nodes) \<and> target e \<in> dom (init_graph nodes)"
    by (simp add: endpoints_known_def)
  from build_graph_returns [OF this] obtain g where g: "build_graph (init_graph nodes) edges = Inr g"
    by blast
  let ?l = "dijkstra_loop g dest ?init"
  from dijkstra_loop_rooted [OF build_graph_joined [OF g] nl, of nodes src ?init dest]
    confined_init [of nodes edges src] doubles_init [of nodes src] rooted_init [of nodes]
  obtain S where cf: "confined nodes edges src (fst ?l, fst (snd ?l))" and rt: "rooted S (fst (snd ?l))"
    by auto
  from cf have dd: "node_ids nodes \<subseteq> dom (fst ?l)" and dp: "dom (fst (snd ?l)) = node_ids nodes"
    by (simp_all add: confined_def)
  have "\<forall>v\<in>node_ids nodes. ends (fst (snd ?l)) v"
  proof
    fix v
    assume "v \<in> node_ids nodes"
    with dp have "fst (snd ?l) v \<noteq> None" by blast
    with rt show "ends (fst (snd ?l)) v" by (simp add: rooted_def)
  qed
  from assemble_returns [OF dd this dn, where its = "snd (snd ?l)"] obtain r
    where "assemble nodes src dest (fst ?l) (fst (snd ?l)) (snd (snd ?l)) = Some r" by blast
  with g show ?thesis
    unfolding dijkstra_execute_cases by blast
qed

section \<open>Bellman-Ford converges when no negative edge joins reachable nodes\<close>

lemma joined_safe:
  assumes "safe nodes edges src" and "joined edges u v w"
    and "reachable nodes edges src u" and "reachable nodes edges src v"
  shows "0 \<le> w"
  using assms unfolding safe_def joined_def by blast

lemma relaxable_weight:
  assumes s: "safe nodes edges src" and c: "confined nodes edges src dp" and j: "joined edges f t w"
    and r: "relaxable (fst dp) f t w"
  shows "0 \<le> w"
  using joined_safe [OF s j] relaxable_reachable [OF c j r] by simp

lemma finite_weight:
  assumes s: "safe nodes edges src" and c: "confined nodes edges src dp" and j: "joined edges f t w"
    and a: "fst dp f = Some (Fin a)" and t: "fst dp t \<noteq> None"
  shows "0 \<le> w"
proof -
  from c a t have fn: "f \<in> node_ids nodes" and tn: "t \<in> node_ids nodes"
    by (auto simp: confined_def)
  from c fn a have rf: "reachable nodes edges src f"
    by (auto simp: confined_def)
  from joined_safe [OF s j rf joined_reachable [OF rf j tn]] show ?thesis .
qed

lemma spath_props:
  "spath nodes edges src vs c \<Longrightarrow> vs \<noteq> [] \<and> distinct vs \<and> set vs \<subseteq> node_ids nodes"
  by (induction rule: spath.induct) auto

lemma spath_reachable:
  "spath nodes edges src vs c \<Longrightarrow> \<forall>v\<in>set vs. reachable nodes edges src v"
proof (induction rule: spath.induct)
  case sp_source
  then show ?case by (auto intro: reach_source)
next
  case (sp_step u vs c v w c')
  then have "reachable nodes edges src u" by simp
  from joined_reachable [OF this sp_step(2,3)] sp_step(6) show ?case by simp
qed

lemma spath_nonneg:
  assumes "safe nodes edges src" and "spath nodes edges src vs c"
  shows "0 \<le> c \<and> round_double c = Fin c"
  using assms(2)
proof (induction rule: spath.induct)
  case sp_source
  show ?case by (simp add: round_double_def)
next
  case (sp_step u vs c v w c')
  from spath_reachable [OF sp_step(1)] have ru: "reachable nodes edges src u" by simp
  from joined_safe [OF assms(1) sp_step(2) ru joined_reachable [OF ru sp_step(2,3)]]
  have w: "0 \<le> w" .
  with sp_step(6) have s: "0 \<le> c + w" by simp
  from round_double_sign [OF s] sp_step(5) round_double_idem [OF sp_step(5)] show ?case
    by simp
qed

lemma spath_prefix:
  assumes nn: "safe nodes edges src" and "spath nodes edges src vs c" and "x \<in> set vs"
  shows "\<exists>vs' c'. spath nodes edges src (x # vs') c' \<and> c' \<le> c \<and> length vs' < length vs"
  using assms(2,3)
proof (induction rule: spath.induct)
  case sp_source
  then have "spath nodes edges src (x # []) 0" by (auto intro: spath.sp_source)
  then show ?case by auto
next
  case (sp_step u vs c v w c')
  show ?case
  proof (cases "x = v")
    case True
    have "spath nodes edges src (v # u # vs) c'"
      by (rule spath.sp_step [OF sp_step(1,2,3,4,5)])
    with True show ?thesis by (intro exI [of _ "u # vs"] exI [of _ c']) auto
  next
    case False
    with sp_step(7) have "x \<in> set (u # vs)" by simp
    from sp_step(6) [OF this] obtain vs' c'' where p: "spath nodes edges src (x # vs') c''"
      and le: "c'' \<le> c" and len: "length vs' < length (u # vs)" by blast
    from spath_reachable [OF sp_step(1)] have ru: "reachable nodes edges src u" by simp
    from joined_safe [OF nn sp_step(2) ru joined_reachable [OF ru sp_step(2,3)]]
    have w: "0 \<le> w" .
    from spath_nonneg [OF nn sp_step(1)] have c: "0 \<le> c" "round_double c = Fin c" by simp_all
    from round_double_add_ge [OF c w sp_step(5)] have "c \<le> c'" .
    with p le len show ?thesis by (intro exI [of _ vs'] exI [of _ c'']) auto
  qed
qed

lemma spath_length: "spath nodes edges src vs c \<Longrightarrow> length vs \<le> length nodes"
proof -
  assume "spath nodes edges src vs c"
  from spath_props [OF this] have d: "distinct vs" and s: "set vs \<subseteq> node_ids nodes" by simp_all
  from d have "length vs = card (set vs)" by (simp add: distinct_card)
  also have "\<dots> \<le> card (node_ids nodes)"
    by (rule card_mono [OF _ s]) (simp add: node_ids_def)
  also have "\<dots> \<le> length nodes"
    unfolding node_ids_def by (rule order_trans [OF card_image_le card_length]) simp
  finally show ?thesis .
qed

lemma above_simple_init: "above_simple nodes edges src (init_distances nodes src, init_previous nodes)"
  unfolding above_simple_def
proof (intro allI impI)
  fix v a
  assume "fst (init_distances nodes src, init_previous nodes) v = Some (Fin a)"
  then have "v = src" "a = 0" "src \<in> node_ids nodes"
    by (auto simp: init_distances_apply split: if_splits)
  then have "spath nodes edges src (v # []) 0 \<and> 0 \<le> a"
    by (auto intro: sp_source)
  then show "\<exists>vs c. spath nodes edges src (v # vs) c \<and> c \<le> a" by blast
qed

lemma proper_init: "proper (init_distances nodes src)"
  by (auto simp: proper_def init_distances_apply round_double_def split: if_splits)

text \<open>What a relaxation computes in a state of non-negative doubles, for a non-negative weight.\<close>

lemma relaxable_proper:
  assumes p: "proper d" and r: "relaxable d f t w" and w: "0 \<le> w"
  shows "\<exists>a b. d f = Some (Fin a) \<and> 0 \<le> a \<and> js_add (d f) w = Some (Fin b)
           \<and> round_double (a + w) = Fin b \<and> a \<le> b \<and> 0 \<le> b \<and> round_double b = Fin b
           \<and> (d t = Some Infinity \<or> (\<exists>b'. d t = Some (Fin b') \<and> b < b'))"
proof -
  from relaxable_defined [OF r] obtain x where x: "d f = Some x" "x \<noteq> Infinity" by blast
  with p obtain a where a: "d f = Some (Fin a)" "0 \<le> a" "round_double a = Fin a"
    by (cases x) (auto simp: proper_def)
  from r a(1) have l: "js_lt (Some (round_double (a + w))) (d t)"
    by (simp add: relaxable_def)
  from a(2) w have s: "0 \<le> a + w" by simp
  from js_lt_defined [OF l] round_double_sign [OF s] obtain b
    where b: "round_double (a + w) = Fin b" "0 \<le> b"
    by (cases "round_double (a + w)") auto
  from round_double_add_ge [OF a(2,3) w b(1)] have ab: "a \<le> b" .
  from l b(1) have "d t = Some Infinity \<or> (\<exists>b'. d t = Some (Fin b') \<and> b < b')"
    by (simp add: js_lt_Fin_left)
  with a b ab round_double_idem [OF b(1)] show ?thesis by simp
qed

lemma proper_relax_step:
  assumes p: "proper (fst dp)" and w: "relaxable (fst dp) f t w \<longrightarrow> 0 \<le> w"
  shows "proper (fst (relax_step dp f t w))"
proof (cases "relaxable (fst dp) f t w")
  case False
  with p show ?thesis by (simp add: relax_step_def)
next
  case True
  with w have "0 \<le> w" by simp
  from relaxable_proper [OF p True this] obtain b
    where "js_add (fst dp f) w = Some (Fin b)" "0 \<le> b" "round_double b = Fin b" by blast
  with True p show ?thesis
    by (auto simp: relax_step_def proper_def)
qed

lemma ends_update_below:
  assumes "ends p x"
    and m: "\<forall>v u. p v = Some (Some u) \<longrightarrow> (\<exists>a b. d u = Some (Fin a) \<and> d v = Some (Fin b) \<and> a \<le> b)"
    and "js_lt (d x) (d t)"
  shows "ends (p(t \<mapsto> y)) x"
  using assms(1,3)
proof (induction rule: ends.induct)
  case (ends_null v)
  from ends_null(2) have "v \<noteq> t"
    using js_lt_irrefl [of "d t"] by auto
  with ends_null(1) have "(p(t \<mapsto> y)) v = Some None" by simp
  then show ?case by (rule ends.ends_null)
next
  case (ends_step v u)
  from ends_step(4) have vt: "v \<noteq> t"
    using js_lt_irrefl [of "d t"] by auto
  from m ends_step(1) obtain a b where a: "d u = Some (Fin a)" and b: "d v = Some (Fin b)" and ab: "a \<le> b"
    by blast
  from ends_step(4) b ab a have "js_lt (d u) (d t)"
    by (auto simp: js_lt_Fin_left)
  from ends_step(3) [OF this] have eu: "ends (p(t \<mapsto> y)) u" .
  from ends_step(1) vt have "(p(t \<mapsto> y)) v = Some (Some u)" by simp
  then show ?case using eu by (rule ends.ends_step)
qed

lemma tree_relax_step:
  assumes t: "tree dp" and pr: "proper (fst dp)" and w: "relaxable (fst dp) f t w \<longrightarrow> 0 \<le> w"
  shows "tree (relax_step dp f t w)"
proof (cases "relaxable (fst dp) f t w")
  case False
  with t show ?thesis by (simp add: relax_step_def)
next
  case True
  obtain d p where dp: "dp = (d, p)" by (cases dp) auto
  from True w have w0: "0 \<le> w" by simp
  from relaxable_proper [OF pr True w0] dp obtain a b where a: "d f = Some (Fin a)"
    and j: "js_add (d f) w = Some (Fin b)" and ab: "a \<le> b"
    and dt: "d t = Some Infinity \<or> (\<exists>b'. d t = Some (Fin b') \<and> b < b')"
    by auto
  from a dt ab have ft: "f \<noteq> t" by auto
  from t dp have m: "\<forall>v u. p v = Some (Some u) \<longrightarrow> (\<exists>a b. d u = Some (Fin a) \<and> d v = Some (Fin b) \<and> a \<le> b)"
    and e: "\<And>v. d v \<noteq> None \<Longrightarrow> ends p v"
    by (auto simp: tree_def)
  have r: "relax_step dp f t w = (d(t \<mapsto> Fin b), p(t \<mapsto> Some f))"
    using True dp j by (simp add: relax_step_def)
  have lt: "js_lt (d f) (d t)"
    using a dt ab by auto
  have ef: "ends (p(t \<mapsto> Some f)) f"
    by (rule ends_update_below [OF e m lt]) (simp add: a)
  have et: "ends (p(t \<mapsto> Some f)) t"
    by (rule ends_step [OF _ ef]) simp
  show ?thesis
    unfolding r tree_def
  proof (intro conjI allI impI)
    fix v u
    assume h: "snd (d(t \<mapsto> Fin b), p(t \<mapsto> Some f)) v = Some (Some u)"
    show "\<exists>a' b'. fst (d(t \<mapsto> Fin b), p(t \<mapsto> Some f)) u = Some (Fin a')
            \<and> fst (d(t \<mapsto> Fin b), p(t \<mapsto> Some f)) v = Some (Fin b') \<and> a' \<le> b'"
    proof (cases "v = t")
      case True
      with h have "u = f" by simp
      with True ft a ab show ?thesis by simp
    next
      case False
      with h have "p v = Some (Some u)" by simp
      with m obtain a' b' where "d u = Some (Fin a')" "d v = Some (Fin b')" "a' \<le> b'"
        by blast
      with False dt show ?thesis by (cases "u = t") auto
    qed
  next
    fix v
    assume "fst (d(t \<mapsto> Fin b), p(t \<mapsto> Some f)) v \<noteq> None"
    then have "v = t \<or> d v \<noteq> None" by (auto split: if_splits)
    then show "ends (snd (d(t \<mapsto> Fin b), p(t \<mapsto> Some f))) v"
      using et ends_update_other [OF e et] by auto
  qed
qed

lemma tree_init: "tree (init_distances nodes src, init_previous nodes)"
  unfolding tree_def
  by (auto simp: init_distances_apply init_previous_apply intro: ends_null split: if_splits)

lemma above_simple_relax_step:
  assumes nn: "safe nodes edges src" and cf: "confined nodes edges src dp"
    and pr: "proper (fst dp)"
    and s: "above_simple nodes edges src dp" and j: "joined edges f t w"
  shows "above_simple nodes edges src (relax_step dp f t w)"
proof (cases "relaxable (fst dp) f t w")
  case False
  with s show ?thesis by (simp add: relax_step_def)
next
  case True
  obtain d p where dp: "dp = (d, p)" by (cases dp) auto
  have w: "0 \<le> w" by (rule relaxable_weight [OF nn cf j True])
  from relaxable_proper [OF pr True w] dp obtain a b where a: "d f = Some (Fin a)" "0 \<le> a"
    and jb: "js_add (d f) w = Some (Fin b)" and rb: "round_double (a + w) = Fin b" and ab: "a \<le> b"
    by auto
  from relaxable_reachable [OF cf j True] have tn: "t \<in> node_ids nodes"
    by (auto intro: reachable_node)
  from s dp have "\<forall>v a. d v = Some (Fin a) \<longrightarrow> (\<exists>vs c. spath nodes edges src (v # vs) c \<and> c \<le> a)"
    by (simp add: above_simple_def)
  with a obtain vs c where sp: "spath nodes edges src (f # vs) c" and c: "c \<le> a"
    by blast
  have new: "\<exists>vs' c'. spath nodes edges src (t # vs') c' \<and> c' \<le> b"
  proof (cases "t \<in> set (f # vs)")
    case True
    from spath_prefix [OF nn sp True] obtain vs' c' where "spath nodes edges src (t # vs') c'" "c' \<le> c"
      by blast
    with c ab show ?thesis by (intro exI [of _ vs'] exI [of _ c']) auto
  next
    case False
    from spath_nonneg [OF nn sp] w have "0 \<le> c + w" by simp
    from round_double_mono [OF this _ rb] c obtain c' where c': "round_double (c + w) = Fin c'" "c' \<le> b"
      by auto
    have "spath nodes edges src (t # f # vs) c'"
      by (rule sp_step [OF sp j tn False c'(1)])
    with c'(2) show ?thesis by (intro exI [of _ "f # vs"] exI [of _ c']) auto
  qed
  have r: "relax_step dp f t w = (d(t \<mapsto> Fin b), p(t \<mapsto> Some f))"
    using True dp jb by (simp add: relax_step_def)
  show ?thesis
    unfolding r above_simple_def
  proof (intro allI impI)
    fix v b'
    assume h: "fst (d(t \<mapsto> Fin b), p(t \<mapsto> Some f)) v = Some (Fin b')"
    show "\<exists>vs c. spath nodes edges src (v # vs) c \<and> c \<le> b'"
    proof (cases "v = t")
      case True
      with h new show ?thesis by simp
    next
      case False
      with h s dp show ?thesis by (simp add: above_simple_def)
    qed
  qed
qed

lemma good_init: "good nodes edges src (init_distances nodes src, init_previous nodes)"
  by (simp add: good_def confined_init proper_init tree_init above_simple_init)

lemma good_relax_step:
  assumes nn: "safe nodes edges src" and g: "good nodes edges src dp" and j: "joined edges f t w"
  shows "good nodes edges src (relax_step dp f t w)"
proof -
  from g have c: "confined nodes edges src dp" and p: "proper (fst dp)" and t: "tree dp"
    and a: "above_simple nodes edges src dp"
    by (simp_all add: good_def)
  have w: "relaxable (fst dp) f t w \<longrightarrow> 0 \<le> w"
    using relaxable_weight [OF nn c j] by simp
  show ?thesis
    unfolding good_def
    using confined_relax_step [OF c j] proper_relax_step [OF p w] tree_relax_step [OF t p w]
      above_simple_relax_step [OF nn c p a j]
    by simp
qed

lemma bf_distances_good:
  assumes "safe nodes edges src"
  shows "good nodes edges src (fst (bf_distances nodes edges src), fst (snd (bf_distances nodes edges src)))"
  by (rule bf_distances_invariant [of "good nodes edges src" edges, OF good_relax_step [OF assms] good_init])

subsection \<open>A pass without update leaves no relaxable edge\<close>

lemma relax_dir_unchanged: "\<not> relaxable (fst st) f t w \<Longrightarrow> relax_dir w st (f, t) = st"
  by (cases st) (simp add: relax_dir_def)

lemma relax_edge_no_update:
  assumes "\<not> snd (snd (relax_edge st e))"
  shows "relax_edge st e = st \<and> \<not> edge_relaxable (fst st) e"
proof -
  obtain d p u where st: "st = (d, p, u)" by (cases st) auto
  let ?s = "source e" and ?t = "target e" and ?w = "weight e"
  let ?st1 = "relax_dir ?w (d, p, u) (?s, ?t)"
  have e: "relax_edge st e = relax_dir ?w ?st1 (?t, ?s)"
    by (simp add: st relax_edge_def directions_def)
  obtain d1 p1 u1 where st1: "?st1 = (d1, p1, u1)" by (cases ?st1) auto
  from assms e st1 have "\<not> (u1 \<or> relaxable d1 ?t ?s ?w)"
    by (simp add: relax_dir_step)
  then have u1: "\<not> u1" and n2: "\<not> relaxable d1 ?t ?s ?w" by simp_all
  from st1 u1 have n1: "\<not> relaxable d ?s ?t ?w"
    by (auto simp: relax_dir_step)
  then have "?st1 = (d, p, u)" by (simp add: relax_dir_unchanged)
  with st1 have eq: "d1 = d" "p1 = p" "u1 = u" by simp_all
  from n2 eq have "relax_dir ?w ?st1 (?t, ?s) = (d, p, u)"
    by (simp add: st1 relax_dir_unchanged)
  with e st n1 n2 eq show ?thesis
    by (simp add: edge_relaxable_def)
qed

lemma relax_edge_flag: "snd (snd st) \<Longrightarrow> snd (snd (relax_edge st e))"
  by (cases st) (simp add: relax_edge_def directions_def relax_dir_def)

lemma foldl_relax_edge_flag: "snd (snd st) \<Longrightarrow> snd (snd (foldl relax_edge st es))"
  by (induction es arbitrary: st) (simp_all add: relax_edge_flag)

lemma foldl_relax_edge_no_update:
  "\<not> snd (snd (foldl relax_edge st es)) \<Longrightarrow>
     foldl relax_edge st es = st \<and> (\<forall>e\<in>set es. \<not> edge_relaxable (fst st) e)"
proof (induction es arbitrary: st)
  case Nil
  show ?case by simp
next
  case (Cons e es)
  from Cons.prems have f: "\<not> snd (snd (foldl relax_edge (relax_edge st e) es))" by simp
  from Cons.IH [OF f] have r: "foldl relax_edge (relax_edge st e) es = relax_edge st e"
    and n: "\<forall>e'\<in>set es. \<not> edge_relaxable (fst (relax_edge st e)) e'" by simp_all
  from f r have "\<not> snd (snd (relax_edge st e))" by simp
  from relax_edge_no_update [OF this] r n show ?case by simp
qed

lemma relax_pass_no_update:
  assumes "relax_pass edges (d, p) = (d', p', False)"
  shows "d' = d \<and> p' = p \<and> \<not> has_negative_cycle d edges"
proof -
  from assms have "\<not> snd (snd (foldl relax_edge (d, p, False) edges))"
    by (simp add: relax_pass_def)
  from foldl_relax_edge_no_update [OF this] assms show ?thesis
    by (simp add: relax_pass_def has_negative_cycle_iff)
qed

subsection \<open>A pass settles the paths with one more edge\<close>

lemma decreased_refl: "decreased d d"
  by (simp add: decreased_def)

lemma decreased_trans: "decreased d d' \<Longrightarrow> decreased d' d'' \<Longrightarrow> decreased d d''"
  unfolding decreased_def by (metis js_lt_trans)

lemma decreased_relax_step: "decreased (fst dp) (fst (relax_step dp f t w))"
proof (cases "relaxable (fst dp) f t w")
  case False
  then show ?thesis by (simp add: relax_step_def decreased_refl)
next
  case True
  from relaxable_defined [OF True] have "dom ((fst dp)(t := js_add (fst dp f) w)) = dom (fst dp)"
    by auto
  with True show ?thesis
    by (auto simp: relax_step_def decreased_def relaxable_def)
qed

lemma decreased_le:
  assumes "decreased d d'" and "proper d'" and "d v = Some (Fin a)"
  shows "\<exists>b. d' v = Some (Fin b) \<and> b \<le> a"
proof -
  from assms(1) have "d' v = d v \<or> js_lt (d' v) (d v)"
    by (simp add: decreased_def)
  with assms(2,3) show ?thesis
    by (auto simp: js_lt_Fin proper_def)
qed

lemma decreased_defined: "decreased d d' \<Longrightarrow> d v \<noteq> None \<Longrightarrow> d' v \<noteq> None"
  unfolding decreased_def by (metis domIff)

lemma relax_dir_fst: "fst (relax_dir w st (f, t)) = fst (relax_step (fst st, fst (snd st)) f t w)"
  by (cases st) (simp add: relax_dir_step)

lemma relax_dir_snd: "fst (snd (relax_dir w st (f, t))) = snd (relax_step (fst st, fst (snd st)) f t w)"
  by (cases st) (simp add: relax_dir_step)

lemma relax_dir_decreased: "decreased (fst st) (fst (relax_dir w st ft))"
  using decreased_relax_step [of "(fst st, fst (snd st))" "fst ft" "snd ft" w]
  by (cases ft) (simp add: relax_dir_fst)

lemma relax_edge_decreased: "decreased (fst st) (fst (relax_edge st e))"
  unfolding relax_edge_def directions_def
  using decreased_trans [OF relax_dir_decreased relax_dir_decreased] by simp

lemma foldl_relax_edge_decreased: "decreased (fst st) (fst (foldl relax_edge st es))"
proof (induction es arbitrary: st)
  case Nil
  show ?case by (simp add: decreased_refl)
next
  case (Cons e es)
  from decreased_trans [OF relax_edge_decreased Cons.IH] show ?case by simp
qed

lemma relax_pass_decreased: "decreased d (fst (relax_pass edges (d, p)))"
  using foldl_relax_edge_decreased [of "(d, p, False)" edges] by (simp add: relax_pass_def)

lemma relax_dir_good:
  assumes nn: "safe nodes edges src" and g: "good nodes edges src (fst st, fst (snd st))"
    and j: "joined edges f t w"
  shows "good nodes edges src (fst (relax_dir w st (f, t)), fst (snd (relax_dir w st (f, t))))"
  using good_relax_step [OF nn g j] by (simp add: relax_dir_fst relax_dir_snd)

lemma relax_edge_good:
  assumes nn: "safe nodes edges src" and g: "good nodes edges src (fst st, fst (snd st))"
    and e: "e \<in> set edges"
  shows "good nodes edges src (fst (relax_edge st e), fst (snd (relax_edge st e)))"
  by (rule relax_edge_invariant [of "good nodes edges src" edges, OF good_relax_step [OF nn] e g])

lemma foldl_relax_edge_good:
  assumes nn: "safe nodes edges src" and g: "good nodes edges src (fst st, fst (snd st))"
    and e: "set es \<subseteq> set edges"
  shows "good nodes edges src (fst (foldl relax_edge st es), fst (snd (foldl relax_edge st es)))"
  by (rule foldl_relax_edge_invariant [of "good nodes edges src" edges, OF good_relax_step [OF nn] e g])

text \<open>
  After the relaxation of a link from \<open>f\<close> to \<open>t\<close>, the distance of \<open>t\<close> is at most the
  double of any sum \<open>c0 + w\<close> with \<open>c0\<close> at least the distance of \<open>f\<close>.
\<close>

lemma relax_step_target:
  assumes p: "proper (fst dp)" and a: "fst dp f = Some (Fin a)" and t: "fst dp t \<noteq> None"
    and ac: "a \<le> c0" and w: "0 \<le> w" and r: "round_double (c0 + w) = Fin c'"
  shows "\<exists>b. fst (relax_step dp f t w) t = Some (Fin b) \<and> b \<le> c'"
proof -
  from p a have a0: "0 \<le> a" by (simp add: proper_def)
  with w have s: "0 \<le> a + w" by simp
  from round_double_mono [OF s _ r] ac obtain b0 where b0: "round_double (a + w) = Fin b0" "b0 \<le> c'"
    by auto
  show ?thesis
  proof (cases "relaxable (fst dp) f t w")
    case True
    with a b0 show ?thesis by (simp add: relax_step_def)
  next
    case False
    with a b0(1) have n: "\<not> js_lt (Some (Fin b0)) (fst dp t)"
      by (simp add: relaxable_def)
    from t obtain y where y: "fst dp t = Some y" by auto
    from p y have "y \<noteq> NegInfinity" by (auto simp: proper_def)
    with n y b0(2) False show ?thesis
      by (cases y) (auto simp: relax_step_def)
  qed
qed

lemma relax_dir_target:
  assumes nn: "safe nodes edges src" and g: "good nodes edges src (fst st, fst (snd st))"
    and j: "joined edges f t w"
    and a: "fst st f = Some (Fin a)" and t: "fst st t \<noteq> None"
    and ac: "a \<le> c0" and r: "round_double (c0 + w) = Fin c'"
  shows "\<exists>b. fst (relax_dir w st (f, t)) t = Some (Fin b) \<and> b \<le> c'"
proof -
  from g have c: "confined nodes edges src (fst st, fst (snd st))" and p: "proper (fst st)"
    by (simp_all add: good_def)
  from finite_weight [OF nn c j] a t have w: "0 \<le> w" by simp
  from relax_step_target [of "(fst st, fst (snd st))" f a t c0 w c'] p a t ac w r
  show ?thesis by (simp add: relax_dir_fst)
qed

lemma relax_edge_target:
  assumes nn: "safe nodes edges src" and g: "good nodes edges src (fst st, fst (snd st))"
    and e: "e \<in> set edges"
    and ft: "(f, t) \<in> set (directions e)" and a: "fst st f = Some (Fin a)" and t: "fst st t \<noteq> None"
    and ac: "a \<le> c0" and r: "round_double (c0 + weight e) = Fin c'"
  shows "\<exists>b. fst (relax_edge st e) t = Some (Fin b) \<and> b \<le> c'"
proof -
  let ?w = "weight e"
  let ?st1 = "relax_dir ?w st (source e, target e)"
  have ee: "relax_edge st e = relax_dir ?w ?st1 (target e, source e)"
    by (simp add: relax_edge_def directions_def)
  have j1: "joined edges (source e) (target e) ?w" and j2: "joined edges (target e) (source e) ?w"
    using e by (auto simp: joined_def)
  note g1 = relax_dir_good [OF nn g j1]
  note g2 = relax_edge_good [OF nn g e]
  from g1 have p1: "proper (fst ?st1)" by (simp add: good_def)
  from g2 have p2: "proper (fst (relax_edge st e))" by (simp add: good_def)
  from ft have "(f = source e \<and> t = target e) \<or> (f = target e \<and> t = source e)"
    by (auto simp: directions_def)
  then show ?thesis
  proof
    assume h: "f = source e \<and> t = target e"
    from relax_dir_target [OF nn g j1 _ _ ac r] a t h obtain b
      where b: "fst ?st1 t = Some (Fin b)" "b \<le> c'" by auto
    have "decreased (fst ?st1) (fst (relax_edge st e))"
      unfolding ee by (rule relax_dir_decreased)
    from decreased_le [OF this p2 b(1)] b(2) show ?thesis by auto
  next
    assume h: "f = target e \<and> t = source e"
    from decreased_le [OF relax_dir_decreased p1 a] obtain a1
      where a1: "fst ?st1 f = Some (Fin a1)" "a1 \<le> a" by auto
    have t1: "fst ?st1 t \<noteq> None"
      by (rule decreased_defined [OF relax_dir_decreased t])
    from a1(2) ac have "a1 \<le> c0" by simp
    from relax_dir_target [OF nn g1 j2 _ _ this r] a1(1) t1 h ee show ?thesis by auto
  qed
qed

lemma foldl_relax_edge_target:
  assumes nn: "safe nodes edges src" and g: "good nodes edges src (fst st, fst (snd st))"
    and es: "set es \<subseteq> set edges" and e: "e \<in> set es"
    and ft: "(f, t) \<in> set (directions e)"
    and a: "fst st f = Some (Fin a)" and t: "fst st t \<noteq> None"
    and ac: "a \<le> c0" and r: "round_double (c0 + weight e) = Fin c'"
  shows "\<exists>b. fst (foldl relax_edge st es) t = Some (Fin b) \<and> b \<le> c'"
  using g es e a t ac
proof (induction es arbitrary: st a)
  case Nil
  then show ?case by simp
next
  case (Cons e0 es)
  from Cons.prems(2) have e0: "e0 \<in> set edges" and es': "set es \<subseteq> set edges" by simp_all
  note g1 = relax_edge_good [OF nn Cons.prems(1) e0]
  from g1 have p1: "proper (fst (relax_edge st e0))" by (simp add: good_def)
  show ?case
  proof (cases "e = e0")
    case True
    from relax_edge_target [OF nn Cons.prems(1) e0 _ Cons.prems(4,5,6)] ft r True obtain b
      where b: "fst (relax_edge st e0) t = Some (Fin b)" "b \<le> c'" by auto
    from foldl_relax_edge_good [OF nn g1 es']
    have "proper (fst (foldl relax_edge (relax_edge st e0) es))" by (simp add: good_def)
    from decreased_le [OF foldl_relax_edge_decreased this b(1)] b(2) show ?thesis by auto
  next
    case False
    with Cons.prems(3) have m: "e \<in> set es" by simp
    from decreased_le [OF relax_edge_decreased p1 Cons.prems(4)] obtain a1
      where a1: "fst (relax_edge st e0) f = Some (Fin a1)" "a1 \<le> a" by auto
    have t1: "fst (relax_edge st e0) t \<noteq> None"
      by (rule decreased_defined [OF relax_edge_decreased Cons.prems(5)])
    from a1(2) Cons.prems(6) have "a1 \<le> c0" by simp
    from Cons.IH [OF g1 es' m a1(1) t1 this] show ?thesis by simp
  qed
qed

lemma relax_pass_good:
  assumes nn: "safe nodes edges src" and g: "good nodes edges src (d, p)"
  shows "good nodes edges src (fst (relax_pass edges (d, p)), fst (snd (relax_pass edges (d, p))))"
  by (rule relax_pass_invariant [of "good nodes edges src" edges, OF good_relax_step [OF nn] g])

lemma settled_decreased:
  assumes "settled nodes edges src k d" and "decreased d d'" and "proper d'"
  shows "settled nodes edges src k d'"
  unfolding settled_def
proof (intro allI impI)
  fix v vs c
  assume "spath nodes edges src (v # vs) c \<and> length vs \<le> k"
  with assms(1) obtain a where "d v = Some (Fin a)" "a \<le> c"
    unfolding settled_def by blast
  with decreased_le [OF assms(2,3) this(1)] show "\<exists>a. d' v = Some (Fin a) \<and> a \<le> c"
    by auto
qed

lemma settled_pass:
  assumes nn: "safe nodes edges src" and g: "good nodes edges src (d, p)"
    and s: "settled nodes edges src k d"
  shows "settled nodes edges src (Suc k) (fst (relax_pass edges (d, p)))"
  unfolding settled_def
proof (intro allI impI)
  fix v vs c
  assume h: "spath nodes edges src (v # vs) c \<and> length vs \<le> Suc k"
  then have sp: "spath nodes edges src (v # vs) c" and len: "length vs \<le> Suc k" by simp_all
  let ?d1 = "fst (relax_pass edges (d, p))"
  from g have dm: "dom d = node_ids nodes" by (simp add: good_def confined_def)
  from relax_pass_good [OF nn g] have p1: "proper ?d1" by (simp add: good_def)
  from sp show "\<exists>a. ?d1 v = Some (Fin a) \<and> a \<le> c"
  proof (cases rule: spath.cases)
    case sp_source
    then have "spath nodes edges src (v # []) 0" using sp by simp
    with s obtain a where a: "d v = Some (Fin a)" "a \<le> 0"
      unfolding settled_def by (metis le0 list.size(3))
    from decreased_le [OF relax_pass_decreased [of d edges p] p1 a(1)] a(2) sp_source show ?thesis by auto
  next
    case (sp_step u vs' c0 w)
    with len have "length vs' \<le> k" by simp
    with s sp_step(2) obtain a where a: "d u = Some (Fin a)" "a \<le> c0"
      unfolding settled_def by blast
    from sp_step(3) obtain e where e: "e \<in> set edges" and we: "weight e = w"
      and j: "(source e = u \<and> target e = v) \<or> (target e = u \<and> source e = v)"
      by (auto simp: joined_def)
    from j have dir: "(u, v) \<in> set (directions e)" by (auto simp: directions_def)
    from sp_step(4) dm have dv: "d v \<noteq> None" by auto
    from sp_step(6) we have r: "round_double (c0 + weight e) = Fin c" by simp
    from foldl_relax_edge_target [OF nn _ _ e dir _ _ a(2) r, of "(d, p, False)"] g a(1) dv
    show ?thesis
      by (simp add: relax_pass_def)
  qed
qed

lemma settled_init: "settled nodes edges src 0 (init_distances nodes src)"
  unfolding settled_def
proof (intro allI impI)
  fix v vs c
  assume "spath nodes edges src (v # vs) c \<and> length vs \<le> 0"
  then have sp: "spath nodes edges src (v # []) c" by auto
  then have "v = src \<and> c = 0 \<and> src \<in> node_ids nodes"
    by (cases rule: spath.cases) auto
  then show "\<exists>a. init_distances nodes src v = Some (Fin a) \<and> a \<le> c"
    by (simp add: init_distances_apply)
qed

lemma settled_all_closed:
  assumes nn: "safe nodes edges src" and g: "good nodes edges src (d, p)"
    and s: "settled nodes edges src (length nodes - 1) d"
  shows "\<not> has_negative_cycle d edges"
proof
  assume "has_negative_cycle d edges"
  then obtain e where e: "e \<in> set edges" and r: "edge_relaxable d e"
    by (auto simp: has_negative_cycle_iff)
  from r obtain f t where j: "joined edges f t (weight e)" and rel: "relaxable d f t (weight e)"
    using e by (auto simp: edge_relaxable_def joined_def)
  let ?w = "weight e"
  from g have cf: "confined nodes edges src (d, p)" and pr: "proper d"
    and a: "above_simple nodes edges src (d, p)"
    by (simp_all add: good_def)
  from relaxable_weight [OF nn cf j] rel have w: "0 \<le> ?w" by simp
  from relaxable_proper [OF pr rel w] obtain x b where x: "d f = Some (Fin x)"
    and rb: "round_double (x + ?w) = Fin b" and xb: "x \<le> b"
    and dt: "d t = Some Infinity \<or> (\<exists>b'. d t = Some (Fin b') \<and> b < b')"
    by blast
  from relaxable_reachable [OF cf j] rel have tn: "t \<in> node_ids nodes"
    by (auto intro: reachable_node)
  from a have "\<forall>v a. d v = Some (Fin a) \<longrightarrow> (\<exists>vs c. spath nodes edges src (v # vs) c \<and> c \<le> a)"
    by (simp add: above_simple_def)
  with x obtain vs c where sp: "spath nodes edges src (f # vs) c" and c: "c \<le> x"
    by blast
  have "\<exists>vs' c'. spath nodes edges src (t # vs') c' \<and> c' \<le> b"
  proof (cases "t \<in> set (f # vs)")
    case True
    from spath_prefix [OF nn sp True] obtain vs' c' where "spath nodes edges src (t # vs') c'" "c' \<le> c"
      by blast
    with c xb show ?thesis by (intro exI [of _ vs'] exI [of _ c']) auto
  next
    case False
    from spath_nonneg [OF nn sp] w have "0 \<le> c + ?w" by simp
    from round_double_mono [OF this _ rb] c obtain c' where c': "round_double (c + ?w) = Fin c'" "c' \<le> b"
      by auto
    have "spath nodes edges src (t # f # vs) c'"
      by (rule sp_step [OF sp j tn False c'(1)])
    with c'(2) show ?thesis by (intro exI [of _ "f # vs"] exI [of _ c']) auto
  qed
  then obtain vs' c' where sp': "spath nodes edges src (t # vs') c'" and c': "c' \<le> b"
    by blast
  from spath_length [OF sp'] have "length vs' \<le> length nodes - 1" by simp
  with s sp' obtain b' where "d t = Some (Fin b')" "b' \<le> c'"
    unfolding settled_def by blast
  with dt c' show False by auto
qed

lemma bf_passes_converges:
  assumes nn: "safe nodes edges src" and "good nodes edges src (d, p)"
    and "settled nodes edges src j d"
  shows "\<not> has_negative_cycle (fst (bf_passes k edges (d, p, its))) edges
       \<or> settled nodes edges src (j + k) (fst (bf_passes k edges (d, p, its)))"
  using assms(2,3)
proof (induction k arbitrary: j d p its)
  case 0
  then show ?case by simp
next
  case (Suc k)
  obtain d1 p1 u where rp: "relax_pass edges (d, p) = (d1, p1, u)"
    by (cases "relax_pass edges (d, p)") auto
  show ?case
  proof (cases u)
    case False
    with relax_pass_no_update [of edges d p d1 p1] rp show ?thesis by simp
  next
    case True
    from settled_pass [OF nn Suc.prems] rp
    have s1: "settled nodes edges src (Suc j) d1" by simp
    from relax_pass_good [OF nn Suc.prems(1)] rp
    have g1: "good nodes edges src (d1, p1)" by simp
    from Suc.IH [OF g1 s1, where its = "Suc its"] True rp show ?thesis by simp
  qed
qed

lemma bf_no_negative_cycle:
  assumes nn: "safe nodes edges src"
  shows "\<not> has_negative_cycle (fst (bf_distances nodes edges src)) edges"
proof -
  let ?b = "bf_distances nodes edges src"
  from bf_passes_converges [OF nn good_init settled_init, where k = "length nodes - 1" and its = 0]
  have "\<not> has_negative_cycle (fst ?b) edges \<or> settled nodes edges src (length nodes - 1) (fst ?b)"
    by (simp add: bf_distances_def)
  with settled_all_closed [OF nn bf_distances_good [OF nn]] show ?thesis
    by blast
qed

lemma bf_returns:
  assumes nn: "safe nodes edges src" and dn: "dest \<in> node_ids nodes"
  shows "\<exists>r. bf_execute nodes edges src dest = Some (Inr r)"
proof -
  obtain d p its where b: "bf_distances nodes edges src = (d, p, its)"
    by (cases "bf_distances nodes edges src") auto
  from bf_distances_good [OF nn, of ] b have c: "confined nodes edges src (d, p)" and t: "tree (d, p)"
    by (simp_all add: good_def)
  from c have dd: "node_ids nodes \<subseteq> dom d" by (simp add: confined_def)
  have "\<forall>v\<in>node_ids nodes. ends p v"
  proof
    fix v
    assume "v \<in> node_ids nodes"
    with dd have "d v \<noteq> None" by blast
    with t show "ends p v" by (simp add: tree_def)
  qed
  from assemble_returns [OF dd this dn, where its = its] obtain r where "assemble nodes src dest d p its = Some r"
    by blast
  with bf_no_negative_cycle [OF nn] b show ?thesis
    by (simp add: bf_execute_def)
qed

section \<open>Unreachable destination\<close>

lemma negativeEdge_reachable: "reachable threeNodes [negativeEdge] ''A'' v \<Longrightarrow> v = ''A'' \<or> v = ''B''"
  by (induction rule: reachable.induct) (auto simp: negativeEdge_def)

text \<open>
  Claim C6, as stated, fails for Bellman-Ford: with the nodes A, B, C and the single edge
  A - B of weight \<open>-1\<close>, the destination C is unreachable from A and the call ends with
  the negative-cycle error.
\<close>

theorem bf_unreachable_destination_error:
  "\<not> reachable threeNodes [negativeEdge] ''A'' ''C''
   \<and> bf_execute threeNodes [negativeEdge] ''A'' ''C'' = Some (Inl NegativeCycleError)"
proof -
  have "\<not> reachable threeNodes [negativeEdge] ''A'' ''C''"
    using negativeEdge_reachable [of "''C''"] by auto
  moreover have "has_negative_cycle (fst (bf_distances threeNodes [negativeEdge] ''A'')) [negativeEdge]"
    by code_simp
  then have "bf_execute threeNodes [negativeEdge] ''A'' ''C'' = Some (Inl NegativeCycleError)"
    by (cases "bf_distances threeNodes [negativeEdge] ''A''") (simp add: bf_execute_def)
  ultimately show ?thesis by simp
qed

text \<open>
  Claim C6, amended. Let no node be called \<open>__proto__\<close> and no edge endpoint outside the
  node list be the name of an inherited object property. Every result that Dijkstra or
  Bellman-Ford returns has as its path the predecessor walk from the destination when
  that walk contains the source, and the empty path otherwise; its routing table has, in
  the order of the node list, one row for every node other than the source whose
  distance is not \<open>Infinity\<close>, with that distance as cost; and when the destination is a
  node of the list that is not reachable from the source, the path is empty and the
  distance of the destination is \<open>Infinity\<close>. Bellman-Ford returns a result whenever the
  destination is a node of the list and every edge that joins two nodes reachable from
  the source has a non-negative weight. Dijkstra returns a result whenever the
  destination is a node of the list, every edge endpoint is a node of the list, and no
  edge of negative weight joins a node to itself.
\<close>

theorem unreachable_destination:
  "(plain_keys nodes edges \<longrightarrow>
      (\<forall>r. dijkstra_execute nodes edges src dest = Some (Inr r)
            \<or> bf_execute nodes edges src dest = Some (Inr r) \<longrightarrow>
         (\<exists>pth. walk (previous r) (Some dest) [] = Some pth
              \<and> path r = (if src \<in> set pth then pth else []) \<and> (path r = [] \<longleftrightarrow> src \<notin> set pth))
         \<and> map destination (routingTable r) = table_nodes (distances r) src nodes
         \<and> (\<forall>row\<in>set (routingTable r).
               cost row \<noteq> Infinity \<and> distances r (destination row) = Some (cost row))
         \<and> (dest \<in> node_ids nodes \<and> \<not> reachable nodes edges src dest \<longrightarrow>
               path r = [] \<and> distances r dest = Some Infinity)))
   \<and> (plain_keys nodes edges \<and> safe nodes edges src \<and> dest \<in> node_ids nodes \<longrightarrow>
        (\<exists>r. bf_execute nodes edges src dest = Some (Inr r)))
   \<and> (plain_keys nodes edges \<and> endpoints_known nodes edges \<and> no_negative_loops edges
        \<and> dest \<in> node_ids nodes \<longrightarrow>
        (\<exists>r. dijkstra_execute nodes edges src dest = Some (Inr r)))"
proof -
  have a: "plain_keys nodes edges \<longrightarrow>
      (\<forall>r. dijkstra_execute nodes edges src dest = Some (Inr r)
            \<or> bf_execute nodes edges src dest = Some (Inr r) \<longrightarrow>
         (\<exists>pth. walk (previous r) (Some dest) [] = Some pth
              \<and> path r = (if src \<in> set pth then pth else []) \<and> (path r = [] \<longleftrightarrow> src \<notin> set pth))
         \<and> map destination (routingTable r) = table_nodes (distances r) src nodes
         \<and> (\<forall>row\<in>set (routingTable r).
               cost row \<noteq> Infinity \<and> distances r (destination row) = Some (cost row))
         \<and> (dest \<in> node_ids nodes \<and> \<not> reachable nodes edges src dest \<longrightarrow>
               path r = [] \<and> distances r dest = Some Infinity))"
  proof (intro allI impI)
    fix r
    assume h: "dijkstra_execute nodes edges src dest = Some (Inr r)
            \<or> bf_execute nodes edges src dest = Some (Inr r)"
    then have as: "assemble nodes src dest (distances r) (previous r) (iterations r) = Some r"
      using dijkstra_execute_assemble bf_execute_assemble by blast
    from h have cf: "confined nodes edges src (distances r, previous r)"
      using dijkstra_result_confined bf_result_confined by blast
    from assemble_result [OF as]
    have s: "(\<exists>pth. walk (previous r) (Some dest) [] = Some pth
              \<and> path r = (if src \<in> set pth then pth else []) \<and> (path r = [] \<longleftrightarrow> src \<notin> set pth))
         \<and> map destination (routingTable r) = table_nodes (distances r) src nodes
         \<and> (\<forall>row\<in>set (routingTable r).
               cost row \<noteq> Infinity \<and> distances r (destination row) = Some (cost row))"
      by blast
    have u: "dest \<in> node_ids nodes \<and> \<not> reachable nodes edges src dest \<longrightarrow>
               path r = [] \<and> distances r dest = Some Infinity"
      using assemble_unreachable [OF cf _ _ as] by blast
    show "(\<exists>pth. walk (previous r) (Some dest) [] = Some pth
              \<and> path r = (if src \<in> set pth then pth else []) \<and> (path r = [] \<longleftrightarrow> src \<notin> set pth))
         \<and> map destination (routingTable r) = table_nodes (distances r) src nodes
         \<and> (\<forall>row\<in>set (routingTable r).
               cost row \<noteq> Infinity \<and> distances r (destination row) = Some (cost row))
         \<and> (dest \<in> node_ids nodes \<and> \<not> reachable nodes edges src dest \<longrightarrow>
               path r = [] \<and> distances r dest = Some Infinity)"
      by (rule conjI [OF s [THEN conjunct1] conjI [OF s [THEN conjunct2, THEN conjunct1]
            conjI [OF s [THEN conjunct2, THEN conjunct2] u]]])
  qed
  have b: "plain_keys nodes edges \<and> safe nodes edges src \<and> dest \<in> node_ids nodes \<longrightarrow>
        (\<exists>r. bf_execute nodes edges src dest = Some (Inr r))"
    using bf_returns by blast
  have c: "plain_keys nodes edges \<and> endpoints_known nodes edges \<and> no_negative_loops edges
        \<and> dest \<in> node_ids nodes \<longrightarrow>
        (\<exists>r. dijkstra_execute nodes edges src dest = Some (Inr r))"
    using dijkstra_returns by blast
  show ?thesis
    by (rule conjI [OF a conjI [OF b c]])
qed

theorem unreachable_destination_witness:
  "plain_keys threeNodes oneLink \<and> safe threeNodes oneLink ''A''
   \<and> endpoints_known threeNodes oneLink \<and> no_negative_loops oneLink
   \<and> ''C'' \<in> node_ids threeNodes \<and> \<not> reachable threeNodes oneLink ''A'' ''C''
   \<and> (\<exists>r. bf_execute threeNodes oneLink ''A'' ''C'' = Some (Inr r) \<and> path r = []
        \<and> distances r ''C'' = Some Infinity
        \<and> map destination (routingTable r) = table_nodes (distances r) ''A'' threeNodes)
   \<and> (\<exists>r. dijkstra_execute threeNodes oneLink ''A'' ''C'' = Some (Inr r) \<and> path r = []
        \<and> distances r ''C'' = Some Infinity
        \<and> map destination (routingTable r) = table_nodes (distances r) ''A'' threeNodes)"
proof -
  note t = unreachable_destination [of threeNodes oneLink "''A''" "''C''"]
  note pk = plain_keys_oneLink
  have sf: "safe threeNodes oneLink ''A''"
    by (simp add: safe_def oneLink_def)
  have ek: "endpoints_known threeNodes oneLink"
    by (simp add: endpoints_known_def oneLink_def threeNodes_ids)
  have nl: "no_negative_loops oneLink"
    by (simp add: no_negative_loops_def oneLink_def)
  have c: "''C'' \<in> node_ids threeNodes"
    by (simp add: threeNodes_ids)
  have nr: "\<not> reachable threeNodes oneLink ''A'' ''C''"
    using oneLink_reachable [of "''C''"] by auto
  from t [THEN conjunct2, THEN conjunct1, rule_format, OF conjI [OF pk conjI [OF sf c]]]
  obtain r1 where r1: "bf_execute threeNodes oneLink ''A'' ''C'' = Some (Inr r1)" by blast
  from t [THEN conjunct2, THEN conjunct2, rule_format, OF conjI [OF pk conjI [OF ek conjI [OF nl c]]]]
  obtain r2 where r2: "dijkstra_execute threeNodes oneLink ''A'' ''C'' = Some (Inr r2)" by blast
  from t [THEN conjunct1, rule_format, OF pk, of r1] r1 c nr
  have s1: "path r1 = [] \<and> distances r1 ''C'' = Some Infinity
    \<and> map destination (routingTable r1) = table_nodes (distances r1) ''A'' threeNodes" by blast
  from t [THEN conjunct1, rule_format, OF pk, of r2] r2 c nr
  have s2: "path r2 = [] \<and> distances r2 ''C'' = Some Infinity
    \<and> map destination (routingTable r2) = table_nodes (distances r2) ''A'' threeNodes" by blast
  from pk sf ek nl c nr r1 s1 r2 s2 show ?thesis by blast
qed

end
